theory Spec2Isabelle
  imports Main
begin

section \<open>JavaScript strings\<close>

text \<open>
  A string is the list of its code units; a \<^typ>\<open>char\<close> holds the code units below 256,
  which covers every address, amount and allow-list the service works on.  The character
  classes below are those of the ECMAScript regular expressions \<^verbatim>\<open>\d\<close>, \<^verbatim>\<open>[0-9a-fA-F]\<close>
  and \<^verbatim>\<open>\s\<close> (the white space and line terminators that \<^verbatim>\<open>trim\<close> strips as well),
  restricted to that range.
\<close>

definition is_digit :: "char \<Rightarrow> bool" where
  "is_digit c = (48 \<le> (of_char c :: nat) \<and> (of_char c :: nat) \<le> 57)"

definition is_hex :: "char \<Rightarrow> bool" where
  "is_hex c = (let n = (of_char c :: nat) in
     (48 \<le> n \<and> n \<le> 57) \<or> (97 \<le> n \<and> n \<le> 102) \<or> (65 \<le> n \<and> n \<le> 70))"

definition is_space :: "char \<Rightarrow> bool" where
  "is_space c = (let n = (of_char c :: nat) in (9 \<le> n \<and> n \<le> 13) \<or> n = 32 \<or> n = 160)"

definition toLowerChar :: "char \<Rightarrow> char" where
  "toLowerChar c = (let n = (of_char c :: nat) in
     if (65 \<le> n \<and> n \<le> 90) \<or> (192 \<le> n \<and> n \<le> 222 \<and> n \<noteq> 215)
     then char_of (n + 32) else c)"

definition toLowerCase :: "string \<Rightarrow> string" where
  "toLowerCase s = map toLowerChar s"

definition trim :: "string \<Rightarrow> string" where
  "trim s = rev (dropWhile is_space (rev (dropWhile is_space s)))"

text \<open>\<^verbatim>\<open>normAddr(a) = a.toLowerCase()\<close>.\<close>

definition normAddr :: "string \<Rightarrow> string" where
  "normAddr a = toLowerCase a"

text \<open>
  \<^verbatim>\<open>raw.split(/[,\s]+/g)\<close>: the pieces between the maximal runs of commas and white space.
  A run at the very start or end of the string leaves an empty piece there, as in
  JavaScript.  The flag says that the scan is inside a run.
\<close>

definition is_sep :: "char \<Rightarrow> bool" where
  "is_sep c = (c = CHR '','' \<or> is_space c)"

fun split_from :: "bool \<Rightarrow> string \<Rightarrow> string list" where
  "split_from b [] = [[]]"
| "split_from b (c # cs) =
     (if is_sep c then (if b then split_from True cs else [] # split_from True cs)
      else (case split_from False cs of
              [] \<Rightarrow> [[c]]
            | p # ps \<Rightarrow> (c # p) # ps))"

definition split_seps :: "string \<Rightarrow> string list" where
  "split_seps raw = split_from False raw"

text \<open>\<^verbatim>\<open>/^0x[0-9a-fA-F]{40}$/.test(p)\<close>.\<close>

definition is_address :: "string \<Rightarrow> bool" where
  "is_address p = (case p of
       c0 # c1 # hs \<Rightarrow> c0 = CHR ''0'' \<and> c1 = CHR ''x'' \<and> length hs = 40 \<and> list_all is_hex hs
     | _ \<Rightarrow> False)"

section \<open>Errors\<close>

text \<open>What a remote call can throw, and what the service itself throws.\<close>

datatype remote_error = NoHealthyEndpoint | InvalidDecimals | CallFailed

datatype error =
    QuantityExceeded int int
  | CollectionNotAllowed string
  | PriceExceedsMaxUnitRaw int int
  | TotalExceedsMaxTotalRaw int int
  | PriceExceedsMaxUnitUsdOL int int
  | TotalExceedsMaxTotalUsdOL int int
  | InvalidAmount string
  | InvalidArgument
  | NumericFault
  | InvalidAddress string
  | Remote remote_error
  | CurrencyMismatch string
  | ExecutionFailed

section \<open>Decimal amounts\<close>

subsection \<open>Big integers and decimal digit strings\<close>

definition digit_val :: "char \<Rightarrow> nat" where
  "digit_val c = of_char c - 48"

definition digit_char :: "nat \<Rightarrow> char" where
  "digit_char k = char_of (48 + k)"

text \<open>\<^verbatim>\<open>BigInt(s)\<close> on a string of decimal digits.\<close>

definition nat_of_digits :: "string \<Rightarrow> nat" where
  "nat_of_digits s = foldl (\<lambda>a c. 10 * a + digit_val c) 0 s"

text \<open>\<^verbatim>\<open>n.toString()\<close> of a non-negative big integer.\<close>

function digits_of_nat :: "nat \<Rightarrow> string" where
  "digits_of_nat n =
     (if n < 10 then [digit_char n] else digits_of_nat (n div 10) @ [digit_char (n mod 10)])"
  by pat_completeness auto
termination
  by (relation "measure id") auto

declare digits_of_nat.simps [simp del]

subsection \<open>The fixed-point conversions of the ethers library\<close>

text \<open>
  \<^verbatim>\<open>parseUnits\<close> and \<^verbatim>\<open>formatUnits\<close> are imported from ethers (version 6), where they are
  \<^verbatim>\<open>FixedNumber.fromString(value, {decimals, width: 512}).value\<close> and
  \<^verbatim>\<open>FixedNumber.fromValue(value, decimals, {decimals, width: 512}).toString()\<close>.
  The format accepts at most 80 decimals; the value is a signed 512-bit integer.

  \<^verbatim>\<open>fromString\<close> matches \<^verbatim>\<open>/^(-?)([0-9]*)\.?([0-9]*)$/\<close>, wants a digit somewhere, pads the
  fraction with zeros up to the format's decimals, refuses a fraction with a non-zero
  digit beyond them, and reads sign, whole part and fraction as one integer.
\<close>

definition fixed_match :: "string \<Rightarrow> (bool \<times> string \<times> string) option" where
  "fixed_match s =
     (let neg = (case s of c # _ \<Rightarrow> c = CHR ''-'' | [] \<Rightarrow> False);
          s1 = (if neg then tl s else s);
          whole = takeWhile is_digit s1;
          r = dropWhile is_digit s1;
          r1 = (case r of c # t \<Rightarrow> if c = CHR ''.'' then t else r | [] \<Rightarrow> r)
      in if list_all is_digit r1 then Some (neg, whole, r1) else None)"

definition is_zero_char :: "char \<Rightarrow> bool" where
  "is_zero_char c = (c = CHR ''0'')"

definition getFormat_ok :: "nat \<Rightarrow> bool" where
  "getFormat_ok decimals = (decimals \<le> 80)"

definition checkValue_ok :: "int \<Rightarrow> bool" where
  "checkValue_ok v = (- (2 ^ 511) \<le> v \<and> v < 2 ^ 511)"

definition parseUnits :: "string \<Rightarrow> nat \<Rightarrow> error + int" where
  "parseUnits val decimals =
     (case fixed_match val of
        None \<Rightarrow> Inl InvalidArgument
      | Some (neg, whole0, decimal0) \<Rightarrow>
          if length whole0 + length decimal0 = 0 then Inl InvalidArgument
          else if \<not> getFormat_ok decimals then Inl InvalidArgument
          else
            let whole = (if whole0 = [] then ''0'' else whole0);
                padded = decimal0 @ replicate (decimals - length decimal0) (CHR ''0'')
            in if \<not> list_all is_zero_char (drop decimals padded) then Inl NumericFault
               else
                 let m = int (nat_of_digits (whole @ take decimals padded));
                     v = (if neg then - m else m)
                 in if checkValue_ok v then Inr v else Inl NumericFault)"

text \<open>
  The library's \<^verbatim>\<open>toString(val, decimals)\<close>: the digits, zeros in front until there is a
  whole digit, the point, then the zeros in front of the whole part and at the end of
  the fraction are cut, one digit staying on either side.
\<close>

fun trim_whole :: "string \<Rightarrow> string" where
  "trim_whole (a # b # cs) =
     (if a = CHR ''0'' \<and> b \<noteq> CHR ''.'' then trim_whole (b # cs) else a # b # cs)"
| "trim_whole [a] = (if a = CHR ''0'' then [] else [a])"
| "trim_whole [] = []"

definition trim_fraction :: "string \<Rightarrow> string" where
  "trim_fraction s = rev (trim_whole (rev s))"

definition fixed_toString :: "int \<Rightarrow> nat \<Rightarrow> string" where
  "fixed_toString v decimals =
     (let negative = (if v < 0 then ''-'' else '''');
          str = digits_of_nat (nat \<bar>v\<bar>)
      in if decimals = 0 then negative @ str
         else
           let str1 = replicate (Suc decimals - length str) (CHR ''0'') @ str;
               index = length str1 - decimals;
               str2 = take index str1 @ ''.'' @ drop index str1
           in negative @ trim_fraction (trim_whole str2))"

definition formatUnits :: "int \<Rightarrow> nat \<Rightarrow> error + string" where
  "formatUnits v decimals =
     (if \<not> getFormat_ok decimals then Inl InvalidArgument
      else if \<not> checkValue_ok v then Inl NumericFault
      else Inr (fixed_toString v decimals))"

subsection \<open>The service's wrappers\<close>

text \<open>\<^verbatim>\<open>/^\d+(\.\d+)?$/.test(cleaned)\<close>.\<close>

definition amount_re :: "string \<Rightarrow> bool" where
  "amount_re s =
     (let w = takeWhile is_digit s; r = dropWhile is_digit s
      in w \<noteq> [] \<and>
         (case r of [] \<Rightarrow> True | c # f \<Rightarrow> c = CHR ''.'' \<and> f \<noteq> [] \<and> list_all is_digit f))"

definition cleaned :: "string \<Rightarrow> string" where
  "cleaned human = filter (\<lambda>c. c \<noteq> CHR '','') (trim human)"

definition parseDecimalToUnits :: "string \<Rightarrow> nat \<Rightarrow> error + int" where
  "parseDecimalToUnits human decimals =
     (if \<not> amount_re (cleaned human) then Inl (InvalidAmount human)
      else parseUnits (cleaned human) decimals)"

definition formatUnitsHuman :: "int \<Rightarrow> nat \<Rightarrow> error + string" where
  "formatUnitsHuman amount decimals = formatUnits amount decimals"

section \<open>Orders\<close>

text \<open>
  \<^verbatim>\<open>Order\<close> of \<^verbatim>\<open>indexer/types.ts\<close>.  A \<^verbatim>\<open>bigint\<close> is an \<^typ>\<open>int\<close>; the integral
  \<^verbatim>\<open>number\<close> fields \<^verbatim>\<open>side\<close> and \<^verbatim>\<open>saleKind\<close> are \<^typ>\<open>int\<close> as well.
\<close>

record NFTInfo =
  tokenId :: int
  collectionAddr :: string
  amount :: int

record Order =
  side :: int
  saleKind :: int
  maker :: string
  nft :: NFTInfo
  price :: int
  currency :: string
  expiry :: int
  salt :: int

section \<open>Collection allow-list\<close>

text \<open>
  \<^verbatim>\<open>raw.split(/[,\s]+/g).map(s => s.trim()).filter(Boolean)\<close>, the entries of the configured
  string.
\<close>

definition allowlist_parts :: "string \<Rightarrow> string list" where
  "allowlist_parts raw = filter (\<lambda>s. s \<noteq> []) (map trim (split_seps raw))"

text \<open>
  \<^verbatim>\<open>parseAllowlist\<close> exists twice, in \<^verbatim>\<open>risk/risk-checker.ts\<close> and in
  \<^verbatim>\<open>indexer/orderbook-indexer.ts\<close>.  An absent or empty string gives the empty set;
  only \<^verbatim>\<open>size\<close> and \<^verbatim>\<open>has\<close> of the \<^verbatim>\<open>Set\<close> are ever used.
\<close>

definition parseAllowlist_risk :: "string option \<Rightarrow> string set" where
  "parseAllowlist_risk raw =
     (case raw of
        None \<Rightarrow> {}
      | Some r \<Rightarrow> if r = [] then {}
                  else set (map toLowerCase (filter is_address (allowlist_parts r))))"

definition parseAllowlist :: "string option \<Rightarrow> string set" where
  "parseAllowlist raw =
     (case raw of
        None \<Rightarrow> {}
      | Some r \<Rightarrow> if r = [] then {}
                  else set (map toLowerCase (filter is_address (allowlist_parts r))))"

section \<open>Risk checker\<close>

record RiskConfig =
  rc_USDOL_ADDRESS :: string
  rc_MAX_QTY :: int
  rc_COLLECTION_ALLOWLIST :: "string option"

record RiskIntent =
  quantity :: int
  maxUnitPriceUsdOL :: "string option"
  maxTotalUsdOL :: "string option"
  maxUnitPriceRaw :: "int option"
  maxTotalRaw :: "int option"

text \<open>A string option is truthy when it is present and not empty.\<close>

definition truthy :: "string option \<Rightarrow> bool" where
  "truthy s = (case s of None \<Rightarrow> False | Some t \<Rightarrow> t \<noteq> [])"

text \<open>
  The allow-list loop.  \<^verbatim>\<open>getAddress\<close> is the checksumming function of ethers, which
  throws on a string that is no address; it is a parameter here (\<open>None\<close> when it
  throws).
\<close>

fun check_allowlist :: "(string \<Rightarrow> string option) \<Rightarrow> string set \<Rightarrow> Order list \<Rightarrow> error + unit" where
  "check_allowlist getAddress allowlist [] = Inr ()"
| "check_allowlist getAddress allowlist (ord # os) =
     (case getAddress (collectionAddr (nft ord)) of
        None \<Rightarrow> Inl (InvalidAddress (collectionAddr (nft ord)))
      | Some a \<Rightarrow>
          if toLowerCase a \<notin> allowlist then Inl (CollectionNotAllowed (collectionAddr (nft ord)))
          else check_allowlist getAddress allowlist os)"

text \<open>The loops that compare each price with a ceiling, and the \<^verbatim>\<open>reduce\<close> of the total.\<close>

definition first_above :: "int \<Rightarrow> Order list \<Rightarrow> Order option" where
  "first_above ceiling os = find (\<lambda>ord. price ord > ceiling) os"

definition total_price :: "Order list \<Rightarrow> int" where
  "total_price os = foldl (\<lambda>acc ord. acc + price ord) 0 os"

definition check_human_unit :: "string option \<Rightarrow> nat \<Rightarrow> Order list \<Rightarrow> error + unit" where
  "check_human_unit h usdolDecimals os =
     (case h of
        None \<Rightarrow> Inr ()
      | Some t \<Rightarrow>
          if t = [] then Inr ()
          else (case parseDecimalToUnits t usdolDecimals of
                  Inl e \<Rightarrow> Inl e
                | Inr maxUnit \<Rightarrow>
                    (case first_above maxUnit os of
                       Some ord \<Rightarrow> Inl (PriceExceedsMaxUnitUsdOL (price ord) maxUnit)
                     | None \<Rightarrow> Inr ())))"

definition check_human_total :: "string option \<Rightarrow> nat \<Rightarrow> Order list \<Rightarrow> error + unit" where
  "check_human_total h usdolDecimals os =
     (case h of
        None \<Rightarrow> Inr ()
      | Some t \<Rightarrow>
          if t = [] then Inr ()
          else (case parseDecimalToUnits t usdolDecimals of
                  Inl e \<Rightarrow> Inl e
                | Inr maxTotal \<Rightarrow>
                    if total_price os > maxTotal
                    then Inl (TotalExceedsMaxTotalUsdOL (total_price os) maxTotal)
                    else Inr ()))"

text \<open>
  \<^verbatim>\<open>checkRisk\<close>.  \<open>resolveDecimals\<close> is what \<^verbatim>\<open>pickProvider\<close> followed by
  \<^verbatim>\<open>getErc20Decimals\<close> gives when it is called: the decimals of the quote token, or the
  error thrown.  It is consulted only if a human-decimal ceiling is present.
\<close>

definition and_then :: "error + 'a \<Rightarrow> ('a \<Rightarrow> error + 'b) \<Rightarrow> error + 'b" where
  "and_then r f = (case r of Inl e \<Rightarrow> Inl e | Inr x \<Rightarrow> f x)"

definition check_quantity :: "RiskConfig \<Rightarrow> RiskIntent \<Rightarrow> error + unit" where
  "check_quantity cfg intent =
     (if quantity intent > rc_MAX_QTY cfg
      then Inl (QuantityExceeded (quantity intent) (rc_MAX_QTY cfg))
      else Inr ())"

definition check_collections ::
  "(string \<Rightarrow> string option) \<Rightarrow> RiskConfig \<Rightarrow> Order list \<Rightarrow> error + unit" where
  "check_collections getAddress cfg selectedOrders =
     (let allowlist = parseAllowlist_risk (rc_COLLECTION_ALLOWLIST cfg)
      in if allowlist \<noteq> {} then check_allowlist getAddress allowlist selectedOrders else Inr ())"

definition check_unit_raw :: "RiskIntent \<Rightarrow> Order list \<Rightarrow> error + unit" where
  "check_unit_raw intent selectedOrders =
     (case maxUnitPriceRaw intent of
        None \<Rightarrow> Inr ()
      | Some m \<Rightarrow> (case first_above m selectedOrders of
                     Some ord \<Rightarrow> Inl (PriceExceedsMaxUnitRaw (price ord) m)
                   | None \<Rightarrow> Inr ()))"

definition check_total_raw :: "RiskIntent \<Rightarrow> Order list \<Rightarrow> error + unit" where
  "check_total_raw intent selectedOrders =
     (case maxTotalRaw intent of
        None \<Rightarrow> Inr ()
      | Some m \<Rightarrow> if total_price selectedOrders > m
                  then Inl (TotalExceedsMaxTotalRaw (total_price selectedOrders) m)
                  else Inr ())"

definition check_human :: "(remote_error + nat) \<Rightarrow> RiskIntent \<Rightarrow> Order list \<Rightarrow> error + unit" where
  "check_human resolveDecimals intent selectedOrders =
     (if truthy (maxUnitPriceUsdOL intent) \<or> truthy (maxTotalUsdOL intent) then
        and_then (case resolveDecimals of Inl e \<Rightarrow> Inl (Remote e) | Inr d \<Rightarrow> Inr d) (\<lambda>usdolDecimals.
        and_then (check_human_unit (maxUnitPriceUsdOL intent) usdolDecimals selectedOrders) (\<lambda>_.
        check_human_total (maxTotalUsdOL intent) usdolDecimals selectedOrders))
      else Inr ())"

definition checkRisk ::
  "(string \<Rightarrow> string option) \<Rightarrow> (remote_error + nat) \<Rightarrow> RiskConfig \<Rightarrow> RiskIntent \<Rightarrow> Order list \<Rightarrow> error + unit" where
  "checkRisk getAddress resolveDecimals cfg intent selectedOrders =
     and_then (check_quantity cfg intent) (\<lambda>_.
     and_then (check_collections getAddress cfg selectedOrders) (\<lambda>_.
     and_then (check_unit_raw intent selectedOrders) (\<lambda>_.
     and_then (check_total_raw intent selectedOrders) (\<lambda>_.
     check_human resolveDecimals intent selectedOrders))))"

text \<open>The outcome is the quantity error, whatever its arguments.\<close>

definition is_quantity_error :: "error + unit \<Rightarrow> bool" where
  "is_quantity_error r = (case r of Inl (QuantityExceeded _ _) \<Rightarrow> True | _ \<Rightarrow> False)"

section \<open>Orderbook indexer\<close>

subsection \<open>The index\<close>

datatype status = Open | Cancelled | Filled

text \<open>
  \<^verbatim>\<open>IndexedOrder\<close> and \<^verbatim>\<open>IndexState\<close>.  A persisted order keeps its big integers as
  decimal strings (\<^verbatim>\<open>toString\<close> on writing, \<^verbatim>\<open>BigInt\<close> on reading); the model keeps the
  integer each string denotes, so \<^verbatim>\<open>toPersistedOrder\<close> only lower-cases the addresses
  and \<^verbatim>\<open>fromPersistedOrder\<close> changes nothing.  Block numbers are integers.

  \<^verbatim>\<open>ordersByKey\<close> is an object keyed by the hexadecimal order key: an association list
  in insertion order, which is the order \<^verbatim>\<open>Object.entries\<close> goes through it.
\<close>

record IndexedOrder =
  orderKey :: string
  porder :: Order
  status :: status
  firstSeenBlock :: int
  lastUpdateBlock :: int

record IndexState =
  chainId :: int
  orderbook :: string
  lastScannedBlock :: int
  ordersByKey :: "(string \<times> IndexedOrder) list"

definition toPersistedOrder :: "Order \<Rightarrow> Order" where
  "toPersistedOrder o1 =
     o1\<lparr>maker := normAddr (maker o1),
        nft := (nft o1)\<lparr>collectionAddr := normAddr (collectionAddr (nft o1))\<rparr>,
        currency := normAddr (currency o1)\<rparr>"

definition fromPersistedOrder :: "Order \<Rightarrow> Order" where
  "fromPersistedOrder p = p"

definition isSellOrder :: "Order \<Rightarrow> bool" where
  "isSellOrder o1 = (side o1 = 0 \<and> saleKind o1 = 1)"

text \<open>
  \<^verbatim>\<open>Number(x)\<close> of a big integer: the nearest double, ties to the even mantissa.  Below
  \<open>2 ^ 53\<close> it is exact; above, \<open>shift_count\<close> is the number of low bits the 53-bit
  mantissa cannot hold.  (From \<open>2 ^ 1024\<close> on JavaScript gives \<^verbatim>\<open>Infinity\<close>, which
  compares with a finite number as the rounded value here does.)
\<close>

function shift_count :: "nat \<Rightarrow> nat" where
  "shift_count n = (if n < 2 ^ 53 then 0 else Suc (shift_count (n div 2)))"
  by pat_completeness auto
termination
  by (relation "measure id") auto

declare shift_count.simps [simp del]

definition Number_nat :: "nat \<Rightarrow> nat" where
  "Number_nat n =
     (let e = shift_count n; q = n div 2 ^ e; r = n mod 2 ^ e
      in if e = 0 then n
         else if 2 * r > 2 ^ e \<or> (2 * r = 2 ^ e \<and> odd q) then (q + 1) * 2 ^ e
         else q * 2 ^ e)"

definition Number_of :: "int \<Rightarrow> int" where
  "Number_of x = (if x < 0 then - int (Number_nat (nat (- x))) else int (Number_nat (nat x)))"

definition isExpired :: "Order \<Rightarrow> int \<Rightarrow> bool" where
  "isExpired o1 nowSec = (if expiry o1 = 0 then False else Number_of (expiry o1) \<le> nowSec)"

record IndexerConfig =
  CHAIN_ID :: int
  ORDERBOOK_ADDRESS :: string
  USDOL_ADDRESS :: string
  INDEXER_FROM_BLOCK :: int
  COLLECTION_ALLOWLIST :: "string option"

subsection \<open>Events of one chunk\<close>

text \<open>
  A fetched log with what the scan derives from it: \<open>parsed\<close> is the decoded event
  (\<open>None\<close> when \<^verbatim>\<open>parseLog\<close> throws or gives nothing), and for a make log \<open>full\<close> is
  the order tuple read back from the contract by key (\<open>None\<close> when the call throws or
  gives nothing).  A match event is decoded to its two keys and the two \<^verbatim>\<open>side\<close> fields.
\<close>

record MakeLog =
  mk_parsed :: "string option"
  mk_full :: "Order option"
  mk_blockNumber :: int

record CancelLog =
  cn_parsed :: "string option"
  cn_blockNumber :: int

record MatchLog =
  mt_parsed :: "(string \<times> string \<times> int \<times> int) option"
  mt_blockNumber :: int

text \<open>\<^verbatim>\<open>state.ordersByKey[k] = v\<close>: an existing key keeps its place, a new one goes last.\<close>

fun upsert :: "string \<Rightarrow> IndexedOrder \<Rightarrow> (string \<times> IndexedOrder) list \<Rightarrow> (string \<times> IndexedOrder) list" where
  "upsert k v [] = [(k, v)]"
| "upsert k v ((k', v') # ps) = (if k = k' then (k, v) # ps else (k', v') # upsert k v ps)"

definition lookup :: "IndexState \<Rightarrow> string \<Rightarrow> IndexedOrder option" where
  "lookup state k = map_of (ordersByKey state) k"

text \<open>The order built from the tuple read back: addresses lower-cased.\<close>

definition order_of_full :: "Order \<Rightarrow> Order" where
  "order_of_full full =
     full\<lparr>maker := normAddr (maker full),
          nft := (nft full)\<lparr>collectionAddr := normAddr (collectionAddr (nft full))\<rparr>,
          currency := normAddr (currency full)\<rparr>"

text \<open>The body of the loop over the make logs.\<close>

definition process_make :: "IndexState \<Rightarrow> MakeLog \<Rightarrow> IndexState" where
  "process_make state log =
     (case mk_parsed log of
        None \<Rightarrow> state
      | Some k \<Rightarrow>
          (case mk_full log of
             None \<Rightarrow> state
           | Some full \<Rightarrow>
               let ord = order_of_full full in
               if \<not> isSellOrder ord then state
               else
                 let existing = lookup state k;
                     persisted = \<lparr>orderKey = k,
                                  porder = toPersistedOrder ord,
                                  status = (case existing of
                                              Some e \<Rightarrow> if status e = Filled then Filled else Open
                                            | None \<Rightarrow> Open),
                                  firstSeenBlock = (case existing of
                                                      Some e \<Rightarrow> firstSeenBlock e
                                                    | None \<Rightarrow> mk_blockNumber log),
                                  lastUpdateBlock = mk_blockNumber log\<rparr>
                 in state\<lparr>ordersByKey := upsert k persisted (ordersByKey state)\<rparr>))"

text \<open>The body of the loop over the cancel logs.\<close>

definition process_cancel :: "IndexState \<Rightarrow> CancelLog \<Rightarrow> IndexState" where
  "process_cancel state log =
     (case cn_parsed log of
        None \<Rightarrow> state
      | Some k \<Rightarrow>
          (case lookup state k of
             None \<Rightarrow> state
           | Some existing \<Rightarrow>
               state\<lparr>ordersByKey :=
                 upsert k (existing\<lparr>status := Cancelled, lastUpdateBlock := cn_blockNumber log\<rparr>)
                   (ordersByKey state)\<rparr>))"

text \<open>
  The body of the loop over the match logs.  \<open>sellKey\<close> is \<^verbatim>\<open>null\<close> when neither side is
  0, and an empty key is falsy as well.
\<close>

definition sellKey_of :: "string \<times> string \<times> int \<times> int \<Rightarrow> string option" where
  "sellKey_of ev =
     (case ev of (makeOrderKey, takeOrderKey, makeSide, takeSide) \<Rightarrow>
        if makeSide = 0 then Some makeOrderKey
        else if takeSide = 0 then Some takeOrderKey
        else None)"

definition process_match :: "IndexState \<Rightarrow> MatchLog \<Rightarrow> IndexState" where
  "process_match state log =
     (case mt_parsed log of
        None \<Rightarrow> state
      | Some ev \<Rightarrow>
          (case sellKey_of ev of
             None \<Rightarrow> state
           | Some k \<Rightarrow>
               if k = [] then state
               else (case lookup state k of
                       None \<Rightarrow> state
                     | Some existing \<Rightarrow>
                         state\<lparr>ordersByKey :=
                           upsert k (existing\<lparr>status := Filled, lastUpdateBlock := mt_blockNumber log\<rparr>)
                             (ordersByKey state)\<rparr>)))"

text \<open>The three loops of \<^verbatim>\<open>scanRange\<close>, in the order the code runs them.\<close>

definition apply_logs :: "IndexState \<Rightarrow> MakeLog list \<Rightarrow> CancelLog list \<Rightarrow> MatchLog list \<Rightarrow> IndexState" where
  "apply_logs state makeLogs cancelLogs matchLogs =
     foldl process_match (foldl process_cancel (foldl process_make state makeLogs) cancelLogs) matchLogs"

subsection \<open>Resilient log fetch\<close>

text \<open>
  \<^verbatim>\<open>getLogsSafe\<close>.  The body of the \<^verbatim>\<open>try\<close> (\<^verbatim>\<open>ensureProvider\<close>, then \<^verbatim>\<open>getLogs\<close> on the
  range) is the parameter \<open>fetch\<close>: it takes the state \<open>'p\<close> of the outside world and
  gives the logs or the error thrown, and the world after the call.  The stack has its
  top at the head of the list.  The waits of \<^verbatim>\<open>setTimeout\<close> are recorded, in
  milliseconds, in the order they happen.
\<close>

type_synonym range = "int \<times> int \<times> nat"

definition mid_of :: "int \<Rightarrow> int \<Rightarrow> int" where
  "mid_of from to = (from + to) div 2"

fun range_weight :: "range \<Rightarrow> nat" where
  "range_weight (from, to, attempts) =
     (if from < to then nat (4 * (to - from + 1) - 1) else 3 - min attempts 2)"

definition stack_weight :: "range list \<Rightarrow> nat" where
  "stack_weight stack = sum_list (map range_weight stack)"

function getLogsSafe_loop ::
  "('p \<Rightarrow> int \<Rightarrow> int \<Rightarrow> (error + 'l list) \<times> 'p) \<Rightarrow> 'p \<Rightarrow> range list \<Rightarrow> 'l list \<Rightarrow> nat list
     \<Rightarrow> (error + 'l list) \<times> nat list \<times> 'p" where
  "getLogsSafe_loop fetch w [] out waits = (Inr out, waits, w)"
| "getLogsSafe_loop fetch w ((from, to, attempts) # stack) out waits =
     (case fetch w from to of
        (Inr logs, w') \<Rightarrow> getLogsSafe_loop fetch w' stack (out @ logs) waits
      | (Inl e, w') \<Rightarrow>
          if from < to then
            getLogsSafe_loop fetch w'
              ((from, mid_of from to, attempts + 1) # (mid_of from to + 1, to, attempts + 1) # stack)
              out waits
          else if attempts < 2 then
            getLogsSafe_loop fetch w' ((from, to, attempts + 1) # stack) out
              (waits @ [500 * (attempts + 1)])
          else (Inl e, waits, w'))"
  by pat_completeness auto
termination
proof (relation "measure (\<lambda>(fetch, w, stack, out, waits). stack_weight stack)")
  show "wf (measure (\<lambda>(fetch, w, stack, out, waits). stack_weight stack))"
    by simp
next
  fix fetch :: "'p \<Rightarrow> int \<Rightarrow> int \<Rightarrow> (error + 'l list) \<times> 'p"
  fix w lo hi attempts stack and out :: "'l list" and waits :: "nat list"
  fix x w' logs
  assume "(x, w') = fetch w lo hi" "x = Inr logs"
  show "((fetch, w', stack, out @ logs, waits), (fetch, w, (lo, hi, attempts) # stack, out, waits))
          \<in> measure (\<lambda>(fetch, w, stack, out, waits). stack_weight stack)"
    by (auto simp: stack_weight_def min_def)
next
  fix fetch :: "'p \<Rightarrow> int \<Rightarrow> int \<Rightarrow> (error + 'l list) \<times> 'p"
  fix w lo hi attempts stack and out :: "'l list" and waits :: "nat list"
  fix x w' e
  assume "(x, w') = fetch w lo hi" "x = Inl e" and lt: "lo < hi"
  have "lo \<le> mid_of lo hi" "mid_of lo hi < hi"
    using lt by (simp_all add: mid_of_def)
  then have "range_weight (lo, mid_of lo hi, attempts + 1)
               + range_weight (mid_of lo hi + 1, hi, attempts + 1)
             < range_weight (lo, hi, attempts)"
    using lt by (auto simp: min_def)
  then show "((fetch, w', (lo, mid_of lo hi, attempts + 1) # (mid_of lo hi + 1, hi, attempts + 1) # stack,
                out, waits),
              (fetch, w, (lo, hi, attempts) # stack, out, waits))
          \<in> measure (\<lambda>(fetch, w, stack, out, waits). stack_weight stack)"
    by (simp add: stack_weight_def)
next
  fix fetch :: "'p \<Rightarrow> int \<Rightarrow> int \<Rightarrow> (error + 'l list) \<times> 'p"
  fix w lo hi attempts stack and out :: "'l list" and waits :: "nat list"
  fix x w' e
  assume "(x, w') = fetch w lo hi" "x = Inl e" "\<not> lo < hi" "attempts < (2::nat)"
  then show "((fetch, w', (lo, hi, attempts + 1) # stack, out, waits @ [500 * (attempts + 1)]),
              (fetch, w, (lo, hi, attempts) # stack, out, waits))
          \<in> measure (\<lambda>(fetch, w, stack, out, waits). stack_weight stack)"
    by (auto simp: stack_weight_def min_def)
qed

declare getLogsSafe_loop.simps [simp del]

definition getLogsSafe ::
  "('p \<Rightarrow> int \<Rightarrow> int \<Rightarrow> (error + 'l list) \<times> 'p) \<Rightarrow> 'p \<Rightarrow> int \<Rightarrow> int
     \<Rightarrow> (error + 'l list) \<times> nat list \<times> 'p" where
  "getLogsSafe fetch w fromBlock toBlock = getLogsSafe_loop fetch w [(fromBlock, toBlock, 0)] [] []"

subsection \<open>Scanning a range and synchronising\<close>

text \<open>
  The chain as the indexer sees it, over a world state \<open>'p\<close>: \<^verbatim>\<open>ensureProvider\<close> (an
  error when no endpoint answers), \<^verbatim>\<open>getBlockNumber\<close>, and the log fetch of each of the
  three topics.  The application binary interface is a constant that names the three
  events, so the check for missing events never fires.  The index file is read and
  written without failure.
\<close>

record 'p chain =
  ch_ensureProvider :: "'p \<Rightarrow> error option \<times> 'p"
  ch_getBlockNumber :: "'p \<Rightarrow> (error + int) \<times> 'p"
  ch_makeLogs :: "'p \<Rightarrow> int \<Rightarrow> int \<Rightarrow> (error + MakeLog list) \<times> 'p"
  ch_cancelLogs :: "'p \<Rightarrow> int \<Rightarrow> int \<Rightarrow> (error + CancelLog list) \<times> 'p"
  ch_matchLogs :: "'p \<Rightarrow> int \<Rightarrow> int \<Rightarrow> (error + MatchLog list) \<times> 'p"

definition scanRange ::
  "'p chain \<Rightarrow> 'p \<Rightarrow> IndexState \<Rightarrow> int \<Rightarrow> int \<Rightarrow> (error + IndexState) \<times> 'p" where
  "scanRange ch w state fromBlock toBlock =
     (case ch_ensureProvider ch w of
        (Some e, w0) \<Rightarrow> (Inl e, w0)
      | (None, w0) \<Rightarrow>
     (case getLogsSafe (ch_makeLogs ch) w0 fromBlock toBlock of
        (Inl e, _, w1) \<Rightarrow> (Inl e, w1)
      | (Inr makeLogs, _, w1) \<Rightarrow>
     (case getLogsSafe (ch_cancelLogs ch) w1 fromBlock toBlock of
        (Inl e, _, w2) \<Rightarrow> (Inl e, w2)
      | (Inr cancelLogs, _, w2) \<Rightarrow>
     (case getLogsSafe (ch_matchLogs ch) w2 fromBlock toBlock of
        (Inl e, _, w3) \<Rightarrow> (Inl e, w3)
      | (Inr matchLogs, _, w3) \<Rightarrow>
          (Inr (apply_logs state makeLogs cancelLogs matchLogs), w3)))))"

text \<open>
  The chunk loop of \<^verbatim>\<open>sync\<close>.  \<open>step\<close> is the parsed \<^verbatim>\<open>INDEXER_BATCH_SIZE\<close>; with a step
  that is not positive the loop of the source never ends, so the loop takes a bound on
  its iterations, and the outcome \<open>None\<close> says that the bound was reached.  The result
  also lists the ranges handed to the scan and the states written to the index file.
\<close>

type_synonym 'p sync_result = "(error + unit) option \<times> (int \<times> int) list \<times> IndexState list \<times> 'p"

fun sync_loop ::
  "nat \<Rightarrow> ('p \<Rightarrow> IndexState \<Rightarrow> int \<Rightarrow> int \<Rightarrow> (error + IndexState) \<times> 'p) \<Rightarrow> int \<Rightarrow> int \<Rightarrow> int
     \<Rightarrow> IndexState \<Rightarrow> 'p \<Rightarrow> (int \<times> int) list \<Rightarrow> IndexState list \<Rightarrow> 'p sync_result" where
  "sync_loop 0 scan step head from state w scanned written =
     (if from \<le> head then (None, scanned, written, w)
      else (Some (Inr ()), scanned, written, w))"
| "sync_loop (Suc fuel) scan step head from state w scanned written =
     (if from \<le> head then
        (let to = min head (from + step - 1) in
         case scan w state from to of
           (Inl e, w') \<Rightarrow> (Some (Inl e), scanned @ [(from, to)], written, w')
         | (Inr state', w') \<Rightarrow>
             let state'' = state'\<lparr>lastScannedBlock := to\<rparr>
             in sync_loop fuel scan step head (from + step) state'' w'
                  (scanned @ [(from, to)]) (written @ [state'']))
      else (Some (Inr ()), scanned, written, w))"

definition fresh_state :: "IndexerConfig \<Rightarrow> IndexState" where
  "fresh_state cfg =
     \<lparr>chainId = CHAIN_ID cfg,
      orderbook = ORDERBOOK_ADDRESS cfg,
      lastScannedBlock = max 0 (INDEXER_FROM_BLOCK cfg - 1),
      ordersByKey = []\<rparr>"

definition state_matches :: "IndexerConfig \<Rightarrow> IndexState \<Rightarrow> bool" where
  "state_matches cfg existing =
     (chainId existing = CHAIN_ID cfg \<and>
      normAddr (orderbook existing) = normAddr (ORDERBOOK_ADDRESS cfg))"

definition initial_state :: "IndexerConfig \<Rightarrow> IndexState option \<Rightarrow> IndexState" where
  "initial_state cfg existing =
     (case existing of
        Some ex \<Rightarrow> if state_matches cfg ex then ex else fresh_state cfg
      | None \<Rightarrow> fresh_state cfg)"

definition effective_fromBlock :: "IndexerConfig \<Rightarrow> int \<Rightarrow> int" where
  "effective_fromBlock cfg head =
     (if INDEXER_FROM_BLOCK cfg > 0 then INDEXER_FROM_BLOCK cfg else max 1 (head - 50000))"

definition start_block :: "IndexerConfig \<Rightarrow> IndexState \<Rightarrow> int \<Rightarrow> int" where
  "start_block cfg state head = max (effective_fromBlock cfg head) (lastScannedBlock state + 1)"

text \<open>\<^verbatim>\<open>sync\<close>; \<open>existing\<close> is what \<^verbatim>\<open>readIndex\<close> gives (\<open>None\<close> for no readable file).\<close>

definition sync ::
  "'p chain \<Rightarrow> IndexerConfig \<Rightarrow> IndexState option \<Rightarrow> int \<Rightarrow> nat \<Rightarrow> 'p \<Rightarrow> 'p sync_result" where
  "sync ch cfg existing step fuel w =
     (case ch_ensureProvider ch w of
        (Some e, w0) \<Rightarrow> (Some (Inl e), [], [], w0)
      | (None, w0) \<Rightarrow>
          let state = initial_state cfg existing in
          (case ch_getBlockNumber ch w0 of
             (Inl e, w1) \<Rightarrow> (Some (Inl e), [], [], w1)
           | (Inr head, w1) \<Rightarrow>
               let start = start_block cfg state head in
               if start > head then (Some (Inr ()), [], [], w1)
               else sync_loop fuel (scanRange ch) step head start state w1 [] []))"

subsection \<open>Active sell orders\<close>

text \<open>
  \<^verbatim>\<open>getActiveSellOrders\<close>; \<open>state\<close> is what \<^verbatim>\<open>readIndex\<close> gives and \<open>nowSec\<close> is
  \<^verbatim>\<open>Math.floor(Date.now() / 1000)\<close>.  An entry of the result carries the key it is
  stored under and the order read back from its persisted form.
\<close>

definition keeps :: "IndexerConfig \<Rightarrow> int \<Rightarrow> IndexedOrder \<Rightarrow> bool" where
  "keeps cfg nowSec p =
     (let allowlist = parseAllowlist (COLLECTION_ALLOWLIST cfg);
          allowOnly = (allowlist \<noteq> {});
          ord = fromPersistedOrder (porder p)
      in if status p \<noteq> Open then False
         else if \<not> isSellOrder ord then False
         else if normAddr (currency ord) \<noteq> normAddr (USDOL_ADDRESS cfg) then False
         else if amount (nft ord) \<noteq> 1 then False
         else if isExpired ord nowSec then False
         else if allowOnly \<and> normAddr (collectionAddr (nft ord)) \<notin> allowlist then False
         else True)"

definition out_entry :: "string \<times> IndexedOrder \<Rightarrow> IndexedOrder" where
  "out_entry kp = (snd kp)\<lparr>orderKey := fst kp, porder := fromPersistedOrder (porder (snd kp))\<rparr>"

definition getActiveSellOrders :: "IndexerConfig \<Rightarrow> IndexState option \<Rightarrow> int \<Rightarrow> IndexedOrder list" where
  "getActiveSellOrders cfg state nowSec =
     (case state of
        None \<Rightarrow> []
      | Some st \<Rightarrow> map out_entry (filter (\<lambda>kp. keeps cfg nowSec (snd kp)) (ordersByKey st)))"

section \<open>Order matcher\<close>

record OrderMatchConfig =
  mc_RPC_URL :: string
  mc_RPC_ENDPOINTS :: "string list option"
  mc_ORDERBOOK_ADDRESS :: string
  mc_USDOL_ADDRESS :: string

record MatchOrderOptions =
  dryRun :: bool
  approveMax :: bool

text \<open>
  What the matcher asks of the outside world: which endpoints answer
  \<^verbatim>\<open>getBlockNumber\<close>, the address of the wallet built from the configured key (or the
  error of building it), the \<^verbatim>\<open>getAddress\<close> function of ethers (\<open>None\<close> when it throws),
  the allowance read, the approval (sent and awaited), the eight random bytes and the
  clock used for the buy order, the hash of the submitted match transaction, and its
  receipt (\<open>None\<close> for no receipt, otherwise the status).
\<close>

record match_env =
  me_healthy :: "string \<Rightarrow> bool"
  me_wallet :: "error + string"
  me_getAddress :: "string \<Rightarrow> string option"
  me_allowance :: "error + int"
  me_approve :: "error + unit"
  me_random :: int
  me_now :: int
  me_submit :: "error + string"
  me_receipt :: "error + int option"

text \<open>The remote calls a run makes, in order.\<close>

datatype effect =
    Probe string
  | ReadAllowance string string
  | SubmitApprove string int
  | SubmitMatch Order Order

definition bindE ::
  "effect list \<times> (error + 'a) \<Rightarrow> ('a \<Rightarrow> effect list \<times> (error + 'b)) \<Rightarrow> effect list \<times> (error + 'b)" where
  "bindE m f =
     (case m of
        (es, Inl e) \<Rightarrow> (es, Inl e)
      | (es, Inr x) \<Rightarrow> (case f x of (es', r) \<Rightarrow> (es @ es', r)))"

definition pure_step :: "error + 'a \<Rightarrow> effect list \<times> (error + 'a)" where
  "pure_step r = ([], r)"

fun pickProvider :: "match_env \<Rightarrow> string list \<Rightarrow> effect list \<times> (error + string)" where
  "pickProvider env [] = ([], Inl (Remote NoHealthyEndpoint))"
| "pickProvider env (u # us) =
     (if me_healthy env u then ([Probe u], Inr u)
      else (case pickProvider env us of (es, r) \<Rightarrow> (Probe u # es, r)))"

definition checked_address :: "match_env \<Rightarrow> string \<Rightarrow> error + string" where
  "checked_address env a = (case me_getAddress env a of None \<Rightarrow> Inl (InvalidAddress a) | Some c \<Rightarrow> Inr c)"

definition MaxUint256 :: int where
  "MaxUint256 = 2 ^ 256 - 1"

definition ensureAllowance ::
  "match_env \<Rightarrow> OrderMatchConfig \<Rightarrow> string \<Rightarrow> int \<Rightarrow> MatchOrderOptions \<Rightarrow> effect list \<times> (error + unit)" where
  "ensureAllowance env cfg owner required opts =
     bindE ([ReadAllowance owner (mc_ORDERBOOK_ADDRESS cfg)], me_allowance env) (\<lambda>current.
       if current \<ge> required then pure_step (Inr ())
       else
         let amount = (if approveMax opts then MaxUint256 else required)
         in if dryRun opts then pure_step (Inr ())
            else ([SubmitApprove (mc_ORDERBOOK_ADDRESS cfg) amount], me_approve env))"

definition buildBuyOrderFromSell :: "match_env \<Rightarrow> Order \<Rightarrow> string \<Rightarrow> int \<Rightarrow> error + Order" where
  "buildBuyOrderFromSell env sell buyer ttlSec =
     (let now = me_now env; salt0 = me_random env in
      and_then (checked_address env buyer) (\<lambda>mk.
      and_then (checked_address env (collectionAddr (nft sell))) (\<lambda>coll.
      and_then (checked_address env (currency sell)) (\<lambda>cur.
        Inr \<lparr>side = 1, saleKind = 1, maker = mk,
             nft = \<lparr>tokenId = tokenId (nft sell), collectionAddr = coll, amount = 1\<rparr>,
             price = price sell, currency = cur,
             expiry = now + ttlSec,
             salt = (if salt0 = 0 then 1 else salt0)\<rparr>))))"

definition currency_check :: "match_env \<Rightarrow> OrderMatchConfig \<Rightarrow> Order \<Rightarrow> error + unit" where
  "currency_check env cfg sell =
     and_then (checked_address env (currency sell)) (\<lambda>a.
     and_then (checked_address env (mc_USDOL_ADDRESS cfg)) (\<lambda>b.
       if a \<noteq> b then Inl (CurrencyMismatch (currency sell)) else Inr ()))"

definition submit_match :: "match_env \<Rightarrow> Order \<Rightarrow> Order \<Rightarrow> effect list \<times> (error + string option)" where
  "submit_match env sell buy =
     bindE ([SubmitMatch sell buy], me_submit env) (\<lambda>hash.
     bindE (pure_step (me_receipt env)) (\<lambda>receipt.
       case receipt of
         None \<Rightarrow> pure_step (Inr (Some hash))
       | Some st \<Rightarrow> if st \<noteq> 1 then pure_step (Inl ExecutionFailed) else pure_step (Inr (Some hash))))"

definition endpoint_urls :: "OrderMatchConfig \<Rightarrow> string list" where
  "endpoint_urls cfg =
     (case mc_RPC_ENDPOINTS cfg of
        Some us \<Rightarrow> if length us > 0 then us else [mc_RPC_URL cfg]
      | None \<Rightarrow> [mc_RPC_URL cfg])"

text \<open>\<^verbatim>\<open>matchOrder\<close>: the calls made and the hash, \<open>None\<close> for \<^verbatim>\<open>null\<close>, or the error thrown.\<close>

definition matchOrder ::
  "match_env \<Rightarrow> OrderMatchConfig \<Rightarrow> Order \<Rightarrow> MatchOrderOptions \<Rightarrow> effect list \<times> (error + string option)" where
  "matchOrder env cfg sell opts =
     bindE (pickProvider env (endpoint_urls cfg)) (\<lambda>provider.
     bindE (pure_step (me_wallet env)) (\<lambda>buyer.
     bindE (pure_step (currency_check env cfg sell)) (\<lambda>_.
     bindE (ensureAllowance env cfg buyer (price sell) opts) (\<lambda>_.
     bindE (pure_step (buildBuyOrderFromSell env sell buyer 300)) (\<lambda>buy.
       if dryRun opts then pure_step (Inr None)
       else submit_match env sell buy)))))"

subsection \<open>Sample data\<close>

text \<open>A sell order, an index holding it under one key, and an event of each kind for that key.\<close>

definition sample_order :: Order where
  "sample_order =
     \<lparr>side = 0, saleKind = 1, maker = ''0xAb'',
      nft = \<lparr>tokenId = 7, collectionAddr = ''0xCd'', amount = 1\<rparr>,
      price = 150, currency = ''0xEf'', expiry = 0, salt = 9\<rparr>"

definition sample_entry :: "status \<Rightarrow> IndexedOrder" where
  "sample_entry st =
     \<lparr>orderKey = ''0xk1'', porder = toPersistedOrder sample_order, status = st,
      firstSeenBlock = 10, lastUpdateBlock = 12\<rparr>"

definition sample_state :: "status \<Rightarrow> IndexState" where
  "sample_state st =
     \<lparr>chainId = 1, orderbook = ''0xob'', lastScannedBlock = 20,
      ordersByKey = [(''0xk1'', sample_entry st)]\<rparr>"

definition sample_make :: MakeLog where
  "sample_make = \<lparr>mk_parsed = Some ''0xk1'', mk_full = Some sample_order, mk_blockNumber = 10\<rparr>"

definition sample_cancel :: CancelLog where
  "sample_cancel = \<lparr>cn_parsed = Some ''0xk1'', cn_blockNumber = 30\<rparr>"

definition sample_match :: MatchLog where
  "sample_match = \<lparr>mt_parsed = Some (''0xk1'', ''0xk2'', 0, 1), mt_blockNumber = 31\<rparr>"

definition sample_cfg :: IndexerConfig where
  "sample_cfg =
     \<lparr>CHAIN_ID = 1, ORDERBOOK_ADDRESS = ''0xOB'', USDOL_ADDRESS = ''0xEF'',
      INDEXER_FROM_BLOCK = 0, COLLECTION_ALLOWLIST = None\<rparr>"

text \<open>An index with an open order that never expires, an open one expired long ago, and a cancelled one.\<close>

definition sample_index :: IndexState where
  "sample_index =
     \<lparr>chainId = 1, orderbook = ''0xob'', lastScannedBlock = 20,
      ordersByKey =
        [(''0xk1'', sample_entry Open),
         (''0xk2'', (sample_entry Open)\<lparr>porder := (toPersistedOrder sample_order)\<lparr>expiry := 1000\<rparr>\<rparr>),
         (''0xk3'', sample_entry Cancelled)]\<rparr>"

subsection \<open>The active-order filter as the specification words it\<close>

text \<open>
  An entry of the configured list is a non-empty run of characters other than commas
  and white space that has a comma, white space or an end of the string on either
  side.  The listed addresses are the entries that are well-formed addresses, in lower
  case; entries of any other shape do not count.
\<close>

definition is_entry :: "string \<Rightarrow> string \<Rightarrow> bool" where
  "is_entry raw p =
     (p \<noteq> [] \<and> list_all (\<lambda>c. \<not> is_sep c) p \<and>
      (\<exists>pre post. raw = pre @ p @ post \<and>
         (pre = [] \<or> is_sep (last pre)) \<and> (post = [] \<or> is_sep (hd post))))"

definition listed_addresses :: "string option \<Rightarrow> string set" where
  "listed_addresses raw =
     (case raw of
        None \<Rightarrow> {}
      | Some r \<Rightarrow> toLowerCase ` {p. is_entry r p \<and> is_address p})"

text \<open>
  Open, sell-side, priced in the quote token (compared without case), one unit, not
  expired, and of a listed collection when the configured list has a well-formed
  address.
\<close>

definition active_spec :: "IndexerConfig \<Rightarrow> int \<Rightarrow> IndexedOrder \<Rightarrow> bool" where
  "active_spec cfg now p =
     (status p = Open \<and>
      side (porder p) = 0 \<and> saleKind (porder p) = 1 \<and>
      toLowerCase (currency (porder p)) = toLowerCase (USDOL_ADDRESS cfg) \<and>
      amount (nft (porder p)) = 1 \<and>
      (expiry (porder p) = 0 \<or> expiry (porder p) > now) \<and>
      (listed_addresses (COLLECTION_ALLOWLIST cfg) \<noteq> {} \<longrightarrow>
         toLowerCase (collectionAddr (nft (porder p))) \<in> listed_addresses (COLLECTION_ALLOWLIST cfg)))"

text \<open>The entries of a string found by one scan from the left: the link between the two.\<close>

function tokens :: "string \<Rightarrow> string list" where
  "tokens s =
     (case dropWhile is_sep s of
        [] \<Rightarrow> []
      | c # r \<Rightarrow> (c # takeWhile (\<lambda>x. \<not> is_sep x) r) # tokens (dropWhile (\<lambda>x. \<not> is_sep x) r))"
  by pat_completeness auto
termination
proof (relation "measure length")
  show "wf (measure length)" by simp
next
  fix s :: string and c r
  assume d: "dropWhile is_sep s = c # r"
  have "length (dropWhile (\<lambda>x. \<not> is_sep x) r) \<le> length r" by (rule length_dropWhile_le)
  also have "length r < length (dropWhile is_sep s)" by (simp add: d)
  also have "\<dots> \<le> length s" by (rule length_dropWhile_le)
  finally show "(dropWhile (\<lambda>x. \<not> is_sep x) r, s) \<in> measure length" by simp
qed

declare tokens.simps [simp del]


text \<open>
  A configuration that lists one collection (in upper case, beside an entry that is no
  address), and an index with an open order of that collection and one of another.
\<close>

definition sample_listing :: IndexerConfig where
  "sample_listing =
     sample_cfg\<lparr>COLLECTION_ALLOWLIST := Some ''0xAAAAAAAAAAAAAAAAAAAAAAAAAAAAAAAAAAAAAAAA, junk''\<rparr>"

definition sample_order_of :: "string \<Rightarrow> Order" where
  "sample_order_of coll = sample_order\<lparr>nft := (nft sample_order)\<lparr>collectionAddr := coll\<rparr>\<rparr>"

definition sample_index2 :: IndexState where
  "sample_index2 =
     \<lparr>chainId = 1, orderbook = ''0xob'', lastScannedBlock = 20,
      ordersByKey =
        [(''0xk1'', (sample_entry Open)\<lparr>porder := toPersistedOrder (sample_order_of ''0xaaaaaaaaaaaaaaaaaaaaaaaaaaaaaaaaaaaaaaaa'')\<rparr>),
         (''0xk2'', (sample_entry Open)\<lparr>porder := toPersistedOrder (sample_order_of ''0xbbbbbbbbbbbbbbbbbbbbbbbbbbbbbbbbbbbbbbbb'')\<rparr>)]\<rparr>"

text \<open>A chain with its head at a given block, every call succeeding and no events.\<close>

definition quiet_chain :: "int \<Rightarrow> unit chain" where
  "quiet_chain head =
     \<lparr>ch_ensureProvider = (\<lambda>w. (None, w)),
      ch_getBlockNumber = (\<lambda>w. (Inr head, w)),
      ch_makeLogs = (\<lambda>w lo hi. (Inr [], w)),
      ch_cancelLogs = (\<lambda>w lo hi. (Inr [], w)),
      ch_matchLogs = (\<lambda>w lo hi. (Inr [], w))\<rparr>"

text \<open>The first block of the first range a run hands to the scan, if any.\<close>

definition first_scanned :: "'p sync_result \<Rightarrow> int option" where
  "first_scanned r = (case fst (snd r) of [] \<Rightarrow> None | (lo, hi) # _ \<Rightarrow> Some lo)"

text \<open>
  A log source whose first \<open>k\<close> calls fail and whose later calls return the range asked
  for as their one log; the world state counts the calls.
\<close>

definition failing_fetch :: "nat \<Rightarrow> nat \<Rightarrow> int \<Rightarrow> int \<Rightarrow> (error + (int \<times> int) list) \<times> nat" where
  "failing_fetch k w lo hi =
     (if w < k then (Inl (Remote CallFailed), Suc w) else (Inr [(lo, hi)], Suc w))"

subsection \<open>Submitted transactions\<close>

text \<open>The calls that send a transaction, as opposed to the reads.\<close>

fun is_submission :: "effect \<Rightarrow> bool" where
  "is_submission (SubmitApprove _ _) = True"
| "is_submission (SubmitMatch _ _) = True"
| "is_submission _ = False"

definition no_submission :: "effect list \<Rightarrow> bool" where
  "no_submission es = list_all (\<lambda>e. \<not> is_submission e) es"

text \<open>
  A world where every call succeeds and the wallet has no allowance yet, a
  configuration, and options for a dry run.  The addresses have no letters, so
  \<^verbatim>\<open>getAddress\<close> returns them as they are.
\<close>

definition sample_env :: match_env where
  "sample_env =
     \<lparr>me_healthy = (\<lambda>u. True),
      me_wallet = Inr ''0x1111111111111111111111111111111111111111'',
      me_getAddress = Some,
      me_allowance = Inr 0,
      me_approve = Inr (),
      me_random = 5,
      me_now = 1700000000,
      me_submit = Inr ''0x77'',
      me_receipt = Inr (Some 1)\<rparr>"

definition sample_mcfg :: OrderMatchConfig where
  "sample_mcfg =
     \<lparr>mc_RPC_URL = ''http://rpc'', mc_RPC_ENDPOINTS = None,
      mc_ORDERBOOK_ADDRESS = ''0x3333333333333333333333333333333333333333'',
      mc_USDOL_ADDRESS = ''0x2222222222222222222222222222222222222222''\<rparr>"

definition sample_sell :: "string \<Rightarrow> Order" where
  "sample_sell cur =
     \<lparr>side = 0, saleKind = 1, maker = ''0x4444444444444444444444444444444444444444'',
      nft = \<lparr>tokenId = 7, collectionAddr = ''0x5555555555555555555555555555555555555555'', amount = 1\<rparr>,
      price = 150, currency = cur, expiry = 0, salt = 9\<rparr>"

definition dry :: MatchOrderOptions where
  "dry = \<lparr>dryRun = True, approveMax = False\<rparr>"

subsection \<open>The value an amount string denotes\<close>

text \<open>
  The whole part and the fraction of a string that matches the amount pattern, and the
  number it gives at \<open>d\<close> decimals when the digits of the fraction beyond the \<open>d\<close>-th are
  cut: \<open>whole * 10 ^ d\<close> plus the first \<open>d\<close> digits of the fraction, read at \<open>d\<close> places.
\<close>

definition whole_part :: "string \<Rightarrow> string" where
  "whole_part s = takeWhile is_digit s"

definition frac_part :: "string \<Rightarrow> string" where
  "frac_part s = drop 1 (dropWhile is_digit s)"

definition scaled_units :: "string \<Rightarrow> string \<Rightarrow> nat \<Rightarrow> nat" where
  "scaled_units w f d =
     nat_of_digits w * 10 ^ d + nat_of_digits (take d f) * 10 ^ (d - length (take d f))"

section \<open>Properties of the risk checker\<close>

lemma check_allowlist_not_quantity:
  "check_allowlist ga al os \<noteq> Inl (QuantityExceeded a b)"
  by (induction os) (auto split: option.splits)

lemma check_collections_not_quantity:
  "check_collections ga cfg os \<noteq> Inl (QuantityExceeded a b)"
  by (simp add: check_collections_def Let_def check_allowlist_not_quantity)

lemma parseUnits_not_quantity: "parseUnits s d \<noteq> Inl (QuantityExceeded a b)"
  by (auto simp: parseUnits_def Let_def split: option.splits prod.splits)

lemma parseDecimalToUnits_not_quantity: "parseDecimalToUnits s d \<noteq> Inl (QuantityExceeded a b)"
  by (simp add: parseDecimalToUnits_def parseUnits_not_quantity)

lemma check_human_not_quantity:
  "check_human rd intent os \<noteq> Inl (QuantityExceeded a b)"
  using parseDecimalToUnits_not_quantity
  by (auto simp: check_human_def and_then_def check_human_unit_def check_human_total_def
           split: sum.splits option.splits if_splits)

lemma after_quantity_not_quantity:
  "and_then (check_collections ga cfg os) (\<lambda>_.
   and_then (check_unit_raw intent os) (\<lambda>_.
   and_then (check_total_raw intent os) (\<lambda>_.
   check_human rd intent os))) \<noteq> Inl (QuantityExceeded a b)"
  using check_collections_not_quantity [of ga cfg os a b] check_human_not_quantity [of rd intent os a b]
  by (auto simp: and_then_def check_unit_raw_def check_total_raw_def split: sum.splits option.splits)

text \<open>
  C9.  \<^verbatim>\<open>checkRisk\<close> throws the quantity error exactly when the quantity of the intent is
  above the configured maximum, and then it is the error of that quantity and that
  maximum.
\<close>

theorem checkRisk_quantity_iff:
  "is_quantity_error (checkRisk ga rd cfg intent os) = (quantity intent > rc_MAX_QTY cfg) \<and>
   (checkRisk ga rd cfg intent os = Inl (QuantityExceeded (quantity intent) (rc_MAX_QTY cfg)))
     = (quantity intent > rc_MAX_QTY cfg)"
proof (cases "quantity intent > rc_MAX_QTY cfg")
  case True
  then show ?thesis
    by (simp add: checkRisk_def check_quantity_def and_then_def is_quantity_error_def)
next
  case False
  let ?rest = "and_then (check_collections ga cfg os) (\<lambda>_.
               and_then (check_unit_raw intent os) (\<lambda>_.
               and_then (check_total_raw intent os) (\<lambda>_.
               check_human rd intent os)))"
  have eq: "checkRisk ga rd cfg intent os = ?rest"
    using False by (simp add: checkRisk_def check_quantity_def and_then_def)
  have "\<not> is_quantity_error ?rest"
    using after_quantity_not_quantity [of ga cfg os intent rd]
    by (auto simp: is_quantity_error_def split: sum.splits error.splits)
  moreover have "?rest \<noteq> Inl (QuantityExceeded (quantity intent) (rc_MAX_QTY cfg))"
    by (rule after_quantity_not_quantity)
  ultimately show ?thesis
    using False eq by simp
qed

text \<open>With a maximum of 5, a quantity of 6 is rejected and a quantity of 5 is not.\<close>

theorem checkRisk_quantity_iff_witness:
  "is_quantity_error
     (checkRisk Some (Inr 6)
        \<lparr>rc_USDOL_ADDRESS = ''0x01'', rc_MAX_QTY = 5, rc_COLLECTION_ALLOWLIST = None\<rparr>
        \<lparr>quantity = 6, maxUnitPriceUsdOL = None, maxTotalUsdOL = None,
         maxUnitPriceRaw = None, maxTotalRaw = None\<rparr> []) \<and>
   \<not> is_quantity_error
     (checkRisk Some (Inr 6)
        \<lparr>rc_USDOL_ADDRESS = ''0x01'', rc_MAX_QTY = 5, rc_COLLECTION_ALLOWLIST = None\<rparr>
        \<lparr>quantity = 5, maxUnitPriceUsdOL = None, maxTotalUsdOL = None,
         maxUnitPriceRaw = None, maxTotalRaw = None\<rparr> [])"
  using checkRisk_quantity_iff [of Some "Inr 6"
      "\<lparr>rc_USDOL_ADDRESS = ''0x01'', rc_MAX_QTY = 5, rc_COLLECTION_ALLOWLIST = None\<rparr>"
      "\<lparr>quantity = 6, maxUnitPriceUsdOL = None, maxTotalUsdOL = None,
         maxUnitPriceRaw = None, maxTotalRaw = None\<rparr>" "[]"]
    checkRisk_quantity_iff [of Some "Inr 6"
      "\<lparr>rc_USDOL_ADDRESS = ''0x01'', rc_MAX_QTY = 5, rc_COLLECTION_ALLOWLIST = None\<rparr>"
      "\<lparr>quantity = 5, maxUnitPriceUsdOL = None, maxTotalUsdOL = None,
         maxUnitPriceRaw = None, maxTotalRaw = None\<rparr>" "[]"]
  by (simp add: is_quantity_error_def)

section \<open>Properties of the allow-list\<close>

lemma parseAllowlist_risk_empty:
  assumes "\<forall>p \<in> set (allowlist_parts raw). \<not> is_address p"
  shows "parseAllowlist_risk (Some raw) = {}"
  using assms by (auto simp: parseAllowlist_risk_def filter_empty_conv)

lemma parseAllowlist_empty:
  assumes "\<forall>p \<in> set (allowlist_parts raw). \<not> is_address p"
  shows "parseAllowlist (Some raw) = {}"
  using assms by (auto simp: parseAllowlist_def filter_empty_conv)

text \<open>
  C10.  When no entry of the configured string is a well-formed address, both parsers
  give the empty set (nothing is reported), every selection passes the collection check
  of the risk checker, and the risk checker and the active-order query answer as they
  do with no allow-list configured.
\<close>

theorem invalid_allowlist_is_no_allowlist:
  assumes "\<forall>p \<in> set (allowlist_parts raw). \<not> is_address p"
  shows "parseAllowlist_risk (Some raw) = {} \<and>
         parseAllowlist (Some raw) = {} \<and>
         check_collections ga (rcfg\<lparr>rc_COLLECTION_ALLOWLIST := Some raw\<rparr>) os = Inr () \<and>
         checkRisk ga rd (rcfg\<lparr>rc_COLLECTION_ALLOWLIST := Some raw\<rparr>) intent os
           = checkRisk ga rd (rcfg\<lparr>rc_COLLECTION_ALLOWLIST := None\<rparr>) intent os \<and>
         getActiveSellOrders (icfg\<lparr>COLLECTION_ALLOWLIST := Some raw\<rparr>) st nowSec
           = getActiveSellOrders (icfg\<lparr>COLLECTION_ALLOWLIST := None\<rparr>) st nowSec"
proof -
  have r: "parseAllowlist_risk (Some raw) = {}" by (rule parseAllowlist_risk_empty [OF assms])
  have i: "parseAllowlist (Some raw) = {}" by (rule parseAllowlist_empty [OF assms])
  have r0: "parseAllowlist_risk None = {}" by (simp add: parseAllowlist_risk_def)
  have i0: "parseAllowlist None = {}" by (simp add: parseAllowlist_def)
  have c: "check_collections ga (rcfg\<lparr>rc_COLLECTION_ALLOWLIST := Some raw\<rparr>) os = Inr ()"
    by (simp add: check_collections_def r)
  have c0: "check_collections ga (rcfg\<lparr>rc_COLLECTION_ALLOWLIST := None\<rparr>) os = Inr ()"
    by (simp add: check_collections_def r0)
  have k: "checkRisk ga rd (rcfg\<lparr>rc_COLLECTION_ALLOWLIST := Some raw\<rparr>) intent os
           = checkRisk ga rd (rcfg\<lparr>rc_COLLECTION_ALLOWLIST := None\<rparr>) intent os"
    by (simp add: checkRisk_def c c0 check_quantity_def)
  have "keeps (icfg\<lparr>COLLECTION_ALLOWLIST := Some raw\<rparr>) nowSec p
        = keeps (icfg\<lparr>COLLECTION_ALLOWLIST := None\<rparr>) nowSec p" for p
    by (simp add: keeps_def i i0)
  then have g: "getActiveSellOrders (icfg\<lparr>COLLECTION_ALLOWLIST := Some raw\<rparr>) st nowSec
           = getActiveSellOrders (icfg\<lparr>COLLECTION_ALLOWLIST := None\<rparr>) st nowSec"
    by (cases st) (simp_all add: getActiveSellOrders_def)
  show ?thesis using r i c k g by simp
qed

lemma allowlist_parts_example: "allowlist_parts ''foo, 0x12'' = [''foo'', ''0x12'']"
  by (simp add: allowlist_parts_def split_seps_def is_sep_def is_space_def trim_def)

theorem invalid_allowlist_is_no_allowlist_witness:
  "allowlist_parts ''foo, 0x12'' = [''foo'', ''0x12''] \<and>
   \<not> is_address ''foo'' \<and> \<not> is_address ''0x12'' \<and>
   parseAllowlist_risk (Some ''foo, 0x12'') = {} \<and>
   parseAllowlist (Some ''foo, 0x12'') = {}"
proof -
  have h: "\<forall>p \<in> set (allowlist_parts ''foo, 0x12''). \<not> is_address p"
    by (simp add: allowlist_parts_example is_address_def)
  show ?thesis
    using h invalid_allowlist_is_no_allowlist [OF h]
    by (simp add: allowlist_parts_example)
qed

section \<open>Properties of the event handlers\<close>

lemma map_of_upsert: "map_of (upsert k v ps) k' = (if k' = k then Some v else map_of ps k')"
  by (induction ps) auto

lemma lookup_upsert:
  "lookup (state\<lparr>ordersByKey := upsert k v (ordersByKey state)\<rparr>) k'
     = (if k' = k then Some v else lookup state k')"
  by (simp add: lookup_def map_of_upsert)

lemma process_make_keeps:
  assumes "lookup state k = Some e"
  shows "\<exists>e'. lookup (process_make state log) k = Some e' \<and>
              firstSeenBlock e' = firstSeenBlock e \<and>
              (status e = Filled \<longrightarrow> status e' = Filled)"
  using assms
  by (auto simp: process_make_def Let_def lookup_upsert split: option.splits)

text \<open>
  C8.  Whatever make logs are processed, an entry that is in the index keeps its
  \<open>firstSeenBlock\<close>, and a \<open>Filled\<close> entry stays \<open>Filled\<close>.
\<close>

theorem make_keeps_filled_and_firstSeenBlock:
  assumes "lookup state k = Some e"
  shows "\<exists>e'. lookup (foldl process_make state logs) k = Some e' \<and>
              firstSeenBlock e' = firstSeenBlock e \<and>
              (status e = Filled \<longrightarrow> status e' = Filled)"
  using assms
proof (induction logs arbitrary: state e)
  case Nil
  then show ?case by simp
next
  case (Cons log logs)
  from process_make_keeps [OF Cons.prems, of log]
  obtain e1 where e1: "lookup (process_make state log) k = Some e1"
      "firstSeenBlock e1 = firstSeenBlock e" "status e = Filled \<longrightarrow> status e1 = Filled"
    by blast
  from Cons.IH [OF e1(1)]
  obtain e2 where "lookup (foldl process_make (process_make state log) logs) k = Some e2"
      "firstSeenBlock e2 = firstSeenBlock e1" "status e1 = Filled \<longrightarrow> status e2 = Filled"
    by blast
  with e1 show ?case by auto
qed

lemma sample_lookup: "lookup (sample_state st) ''0xk1'' = Some (sample_entry st)"
  by (simp add: lookup_def sample_state_def)

theorem make_keeps_filled_and_firstSeenBlock_witness:
  "lookup (sample_state Filled) ''0xk1'' = Some (sample_entry Filled) \<and>
   (\<exists>e'. lookup (foldl process_make (sample_state Filled) [sample_make]) ''0xk1'' = Some e' \<and>
         firstSeenBlock e' = 10 \<and> status e' = Filled)"
  using make_keeps_filled_and_firstSeenBlock [OF sample_lookup [of Filled], of "[sample_make]"]
  by (simp add: sample_lookup sample_entry_def)

lemma process_cancel_status:
  assumes "lookup state k = Some e"
  shows "map_option status (lookup (process_cancel state clog) k)
           = Some (if cn_parsed clog = Some k then Cancelled else status e)"
  using assms
  by (auto simp: process_cancel_def lookup_upsert split: option.splits)

lemma process_match_status:
  assumes "lookup state k = Some e"
  shows "map_option status (lookup (process_match state mlog) k)
           = Some (if \<exists>ev. mt_parsed mlog = Some ev \<and> sellKey_of ev = Some k \<and> k \<noteq> []
                   then Filled else status e)"
  using assms
  by (auto simp: process_match_def lookup_upsert split: option.splits)

lemma process_make_status:
  assumes "lookup state k = Some e" "status e \<noteq> Cancelled"
  shows "map_option status (lookup (process_make state log) k) = Some (status e)"
  using assms
  by (cases "status e") (auto simp: process_make_def Let_def lookup_upsert split: option.splits)

text \<open>
  C1.  For an entry of the index: a make log leaves an \<open>Open\<close> status \<open>Open\<close> and a
  \<open>Filled\<close> status \<open>Filled\<close>; a cancel log for its key sets the status to
  \<open>Cancelled\<close> and a match log whose sell-side key is its key sets it to \<open>Filled\<close>,
  whatever the status was; a cancel or match log for another key leaves it as it is.
\<close>

theorem event_status_transitions:
  assumes "lookup state k = Some e"
  shows "(status e \<noteq> Cancelled \<longrightarrow>
            map_option status (lookup (process_make state log) k) = Some (status e)) \<and>
         map_option status (lookup (process_cancel state clog) k)
           = Some (if cn_parsed clog = Some k then Cancelled else status e) \<and>
         map_option status (lookup (process_match state mlog) k)
           = Some (if \<exists>ev. mt_parsed mlog = Some ev \<and> sellKey_of ev = Some k \<and> k \<noteq> []
                   then Filled else status e)"
  using process_make_status [OF assms] process_cancel_status [OF assms] process_match_status [OF assms]
  by blast

theorem event_status_transitions_witness:
  "lookup (sample_state Open) ''0xk1'' = Some (sample_entry Open) \<and>
   map_option status (lookup (process_make (sample_state Open) sample_make) ''0xk1'') = Some Open \<and>
   map_option status (lookup (process_cancel (sample_state Open) sample_cancel) ''0xk1'') = Some Cancelled \<and>
   map_option status (lookup (process_match (sample_state Open) sample_match) ''0xk1'') = Some Filled"
  using event_status_transitions [OF sample_lookup [of Open], of sample_make sample_cancel sample_match]
  by (simp add: sample_lookup sample_entry_def sample_cancel_def sample_match_def sellKey_of_def)


text \<open>
  The two terminal states are not closed under the handlers: a make log for a
  cancelled key sets it back to \<open>Open\<close>, a cancel log moves a filled entry to
  \<open>Cancelled\<close>, and a match log moves a cancelled entry to \<open>Filled\<close>.
\<close>

theorem terminal_status_changes:
  "map_option status (lookup (process_make (sample_state Cancelled) sample_make) ''0xk1'') = Some Open \<and>
   map_option status (lookup (process_cancel (sample_state Filled) sample_cancel) ''0xk1'') = Some Cancelled \<and>
   map_option status (lookup (process_match (sample_state Cancelled) sample_match) ''0xk1'') = Some Filled \<and>
   map_option status
     (lookup (apply_logs (sample_state Cancelled) [sample_make] [] []) ''0xk1'') = Some Open"
  by (simp add: process_make_def process_cancel_def process_match_def apply_logs_def
      sample_make_def sample_cancel_def sample_match_def sellKey_of_def
      sample_lookup sample_entry_def Let_def lookup_upsert
      order_of_full_def isSellOrder_def sample_order_def)

section \<open>Properties of the active-order query\<close>

lemmas char_eval = toLowerCase_def toLowerChar_def normAddr_def char_of_def bit_Suc_0_iff

lemma shift_count_small: "n < 2 ^ 53 \<Longrightarrow> shift_count n = 0"
  by (subst shift_count.simps) simp

lemma shift_count_pos: "\<not> n < 2 ^ 53 \<Longrightarrow> 0 < shift_count n"
  by (subst shift_count.simps) simp

lemma shift_count_quotient:
  "\<not> n < 2 ^ 53 \<Longrightarrow> 2 ^ 52 \<le> n div 2 ^ shift_count n"
proof (induction n rule: shift_count.induct)
  case (1 n)
  have sc: "shift_count n = Suc (shift_count (n div 2))"
    using "1.prems" by (subst shift_count.simps) simp
  have q: "n div 2 ^ shift_count n = (n div 2) div 2 ^ shift_count (n div 2)"
    by (simp add: sc div_mult2_eq)
  show ?case
  proof (cases "n div 2 < 2 ^ 53")
    case True
    then have "shift_count (n div 2) = 0" by (rule shift_count_small)
    moreover have "2 ^ 52 \<le> n div 2" using "1.prems" by simp
    ultimately show ?thesis using q by simp
  next
    case False
    with "1.IH" "1.prems" have "2 ^ 52 \<le> (n div 2) div 2 ^ shift_count (n div 2)" by simp
    then show ?thesis using q by simp
  qed
qed

lemma Number_nat_small: "n < 2 ^ 53 \<Longrightarrow> Number_nat n = n"
  by (simp add: Number_nat_def shift_count_small)

lemma Number_nat_large:
  assumes "\<not> n < 2 ^ 53"
  shows "2 ^ 53 \<le> Number_nat n"
proof -
  let ?e = "shift_count n"
  let ?q = "n div 2 ^ ?e"
  have e: "0 < ?e" using assms by (rule shift_count_pos)
  have q: "2 ^ 52 \<le> ?q" using assms by (rule shift_count_quotient)
  have "(2::nat) ^ 1 \<le> 2 ^ ?e" using e by (intro power_increasing) simp_all
  then have p: "(2::nat) \<le> 2 ^ ?e" by simp
  have "(2::nat) ^ 53 = 2 ^ 52 * 2" by simp
  also have "\<dots> \<le> ?q * 2 ^ ?e" using q p by (rule mult_le_mono)
  finally have lo: "2 ^ 53 \<le> ?q * 2 ^ ?e" .
  have "?q * 2 ^ ?e \<le> Number_nat n"
    using e by (simp add: Number_nat_def Let_def)
  with lo show ?thesis by linarith
qed

lemma Number_of_le:
  assumes "\<bar>now\<bar> < 2 ^ 53"
  shows "(Number_of x \<le> now) = (x \<le> now)"
proof (cases "\<bar>x\<bar> < 2 ^ 53")
  case True
  then have "nat \<bar>x\<bar> < 2 ^ 53" by (simp add: nat_less_iff)
  then have "Number_of x = x"
    by (auto simp: Number_of_def Number_nat_small nat_less_iff)
  then show ?thesis by simp
next
  case False
  show ?thesis
  proof (cases "x < 0")
    case True
    with False have "\<not> nat (- x) < 2 ^ 53" by (simp add: nat_less_iff)
    then have "2 ^ 53 \<le> Number_nat (nat (- x))" by (rule Number_nat_large)
    then have "(2::int) ^ 53 \<le> int (Number_nat (nat (- x)))"
      by (metis of_nat_le_iff of_nat_numeral of_nat_power)
    then have "Number_of x \<le> - (2 ^ 53)" using True by (simp add: Number_of_def)
    moreover have "x \<le> - (2 ^ 53)" using True False by simp
    ultimately show ?thesis using assms by linarith
  next
    case nonneg: False
    with False have "\<not> nat x < 2 ^ 53" by (simp add: nat_less_iff)
    then have "2 ^ 53 \<le> Number_nat (nat x)" by (rule Number_nat_large)
    then have "(2::int) ^ 53 \<le> int (Number_nat (nat x))"
      by (metis of_nat_le_iff of_nat_numeral of_nat_power)
    then have "2 ^ 53 \<le> Number_of x" using nonneg by (simp add: Number_of_def)
    moreover have "2 ^ 53 \<le> x" using nonneg False by simp
    ultimately show ?thesis using assms by linarith
  qed
qed

subsection \<open>The entries of the allow-list\<close>

lemma tokens_Nil: "tokens [] = []"
  by (subst tokens.simps) simp

lemma tokens_sep: "is_sep c \<Longrightarrow> tokens (c # cs) = tokens cs"
  by (subst tokens.simps, subst (2) tokens.simps) simp

lemma tokens_nonsep:
  "\<not> is_sep c \<Longrightarrow>
   tokens (c # cs) = (c # takeWhile (\<lambda>x. \<not> is_sep x) cs) # tokens (dropWhile (\<lambda>x. \<not> is_sep x) cs)"
  by (subst tokens.simps) simp

lemma split_from_tokens:
  "filter (\<lambda>p. p \<noteq> []) (split_from True s) = tokens s \<and>
   (\<exists>ps. split_from False s = takeWhile (\<lambda>x. \<not> is_sep x) s # ps \<and>
         filter (\<lambda>p. p \<noteq> []) ps = tokens (dropWhile (\<lambda>x. \<not> is_sep x) s))"
proof (induction s)
  case Nil
  then show ?case by (simp add: tokens_Nil)
next
  case (Cons c cs)
  from Cons.IH obtain ps where
    t: "filter (\<lambda>p. p \<noteq> []) (split_from True cs) = tokens cs" and
    f: "split_from False cs = takeWhile (\<lambda>x. \<not> is_sep x) cs # ps"
       "filter (\<lambda>p. p \<noteq> []) ps = tokens (dropWhile (\<lambda>x. \<not> is_sep x) cs)" by blast
  show ?case
  proof (cases "is_sep c")
    case True
    then show ?thesis using t by (simp add: tokens_sep)
  next
    case False
    then show ?thesis using f by (simp add: tokens_nonsep)
  qed
qed

lemma split_seps_tokens: "filter (\<lambda>p. p \<noteq> []) (split_seps s) = tokens s"
proof -
  from split_from_tokens [of s] obtain ps where
    f: "split_from False s = takeWhile (\<lambda>x. \<not> is_sep x) s # ps"
       "filter (\<lambda>p. p \<noteq> []) ps = tokens (dropWhile (\<lambda>x. \<not> is_sep x) s)" by blast
  show ?thesis
  proof (cases s)
    case Nil
    then show ?thesis using f by (simp add: split_seps_def tokens_Nil)
  next
    case (Cons c cs)
    show ?thesis
    proof (cases "is_sep c")
      case True
      then show ?thesis using f Cons by (simp add: split_seps_def)
    next
      case False
      then show ?thesis using f Cons by (simp add: split_seps_def tokens_nonsep)
    qed
  qed
qed

lemma split_from_no_sep: "p \<in> set (split_from b s) \<Longrightarrow> c \<in> set p \<Longrightarrow> \<not> is_sep c"
proof (induction s arbitrary: b p)
  case Nil
  then show ?case by simp
next
  case (Cons x xs)
  show ?case
  proof (cases "is_sep x")
    case True
    with Cons.prems Cons.IH [of p True] show ?thesis
      by (auto split: if_splits)
  next
    case False
    obtain q qs where q: "split_from False xs = q # qs"
      using split_from_tokens [of xs] by blast
    with Cons.prems False have "p = x # q \<or> p \<in> set qs" by simp
    then show ?thesis
    proof
      assume "p = x # q"
      with Cons.prems(2) False Cons.IH [of q False] q show ?thesis by auto
    next
      assume "p \<in> set qs"
      with Cons.IH [of p False] q Cons.prems(2) show ?thesis by simp
    qed
  qed
qed

lemma dropWhile_none: "(\<And>x. x \<in> set xs \<Longrightarrow> \<not> P x) \<Longrightarrow> dropWhile P xs = xs"
  by (cases xs) auto

lemma trim_no_space:
  assumes "\<And>c. c \<in> set p \<Longrightarrow> \<not> is_space c"
  shows "trim p = p"
proof -
  have a: "dropWhile is_space p = p"
    using assms by (rule dropWhile_none)
  have b: "dropWhile is_space (rev p) = rev p"
    using assms by (intro dropWhile_none) simp
  show ?thesis by (simp add: trim_def a b)
qed

lemma allowlist_parts_tokens: "allowlist_parts raw = tokens raw"
proof -
  have "map trim (split_seps raw) = split_seps raw"
  proof (rule map_idI)
    fix p assume "p \<in> set (split_seps raw)"
    then have "\<And>c. c \<in> set p \<Longrightarrow> \<not> is_sep c"
      unfolding split_seps_def by (rule split_from_no_sep)
    then have "\<And>c. c \<in> set p \<Longrightarrow> \<not> is_space c"
      by (auto simp: is_sep_def)
    then show "trim p = p" by (rule trim_no_space)
  qed
  then show ?thesis
    by (simp only: allowlist_parts_def split_seps_tokens)
qed

lemma last_dropWhile: "dropWhile P xs \<noteq> [] \<Longrightarrow> last (dropWhile P xs) = last xs"
  by (induction xs) (auto split: if_splits)

lemma tokens_entry: "p \<in> set (tokens s) \<longleftrightarrow> is_entry s p"
proof (induction s rule: tokens.induct)
  case (1 s)
  let ?ns = "\<lambda>x. \<not> is_sep x"
  show ?case
  proof (cases "dropWhile is_sep s")
    case Nil
    then have allsep: "\<And>x. x \<in> set s \<Longrightarrow> is_sep x" by simp
    have "\<not> is_entry s p"
    proof
      assume "is_entry s p"
      then obtain pre post a p' where "s = pre @ p @ post" "p = a # p'" "\<not> is_sep a"
        by (cases p) (auto simp: is_entry_def)
      then have "a \<in> set s" "\<not> is_sep a" by simp_all
      with allsep show False by blast
    qed
    moreover have "tokens s = []" by (subst tokens.simps, unfold Nil) simp
    ultimately show ?thesis by simp
  next
    case (Cons c r)
    define seps where "seps = takeWhile is_sep s"
    define tw where "tw = takeWhile ?ns r"
    define rest where "rest = dropWhile ?ns r"
    have s: "s = seps @ c # r"
      unfolding seps_def Cons [symmetric] by simp
    have r: "r = tw @ rest" unfolding tw_def rest_def by simp
    have c: "\<not> is_sep c"
      using hd_dropWhile [of is_sep s] Cons by simp
    have seps: "\<And>x. x \<in> set seps \<Longrightarrow> is_sep x"
      unfolding seps_def by (rule set_takeWhileD [THEN conjunct2])
    have tw: "\<And>x. x \<in> set tw \<Longrightarrow> \<not> is_sep x"
      unfolding tw_def by (drule set_takeWhileD) simp
    have rest: "rest = [] \<or> is_sep (hd rest)"
      using hd_dropWhile [of ?ns r] unfolding rest_def by auto
    have tok: "tokens s = (c # tw) # tokens rest"
      using Cons by (subst tokens.simps) (simp add: tw_def rest_def)
    have IH: "p \<in> set (tokens rest) \<longleftrightarrow> is_entry rest p"
      using "1.IH" [OF Cons] by (simp add: rest_def)
    show ?thesis
    proof
      assume "p \<in> set (tokens s)"
      then consider "p = c # tw" | "p \<in> set (tokens rest)" using tok by auto
      then show "is_entry s p"
      proof cases
        case 1
        have "s = seps @ p @ rest" using s r 1 by simp
        moreover have "seps = [] \<or> is_sep (last seps)" using seps last_in_set by blast
        moreover have "list_all ?ns p" using 1 c tw by (auto simp: list_all_iff)
        ultimately show ?thesis using rest 1 unfolding is_entry_def by blast
      next
        case 2
        with IH obtain pre' post' where
          e: "p \<noteq> []" "list_all ?ns p" "rest = pre' @ p @ post'"
             "pre' = [] \<or> is_sep (last pre')" "post' = [] \<or> is_sep (hd post')"
          unfolding is_entry_def by blast
        have "pre' \<noteq> []"
        proof
          assume "pre' = []"
          with e(1,3) have "rest \<noteq> []" "hd rest = hd p" by (cases p; simp)+
          moreover have "\<not> is_sep (hd p)" using e(1,2) by (cases p) auto
          ultimately show False using rest by auto
        qed
        with e(4) have "is_sep (last ((seps @ c # tw) @ pre'))" by simp
        moreover have "s = ((seps @ c # tw) @ pre') @ p @ post'" using s r e(3) by simp
        ultimately show ?thesis using e(1,2,5) unfolding is_entry_def by blast
      qed
    next
      assume "is_entry s p"
      then obtain pre post where
        e: "p \<noteq> []" "list_all ?ns p" "s = pre @ p @ post"
           "pre = [] \<or> is_sep (last pre)" "post = [] \<or> is_sep (hd post)"
        unfolding is_entry_def by blast
      obtain a p' where p: "p = a # p'" using e(1) by (cases p) auto
      have a: "\<not> is_sep a" and p': "\<And>x. x \<in> set p' \<Longrightarrow> \<not> is_sep x"
        using e(2) p by (auto simp: list_all_iff)
      have twpost: "takeWhile ?ns post = []"
        using e(5) by (cases post) auto
      show "p \<in> set (tokens s)"
      proof (cases "\<forall>x \<in> set pre. is_sep x")
        case True
        then have "dropWhile is_sep s = p @ post"
          unfolding e(3) using a p by simp
        with Cons p have cr: "c = a" "r = p' @ post" by simp_all
        have "tw = p'"
          unfolding tw_def cr(2) using p' twpost by simp
        then have "p = c # tw" using p cr by simp
        then show ?thesis using tok by simp
      next
        case False
        then obtain x where x: "x \<in> set pre" "\<not> is_sep x" by blast
        then have pre_ne: "pre \<noteq> []" by auto
        with e(4) have lastpre: "is_sep (last pre)" by simp
        have dws: "dropWhile is_sep s = dropWhile is_sep pre @ p @ post"
          unfolding e(3) using x by (rule dropWhile_append1)
        have dp_ne: "dropWhile is_sep pre \<noteq> []" using x by auto
        then obtain c' more where dp: "dropWhile is_sep pre = c' # more"
          by (cases "dropWhile is_sep pre") auto
        with dws Cons have cr: "c' = c" "r = more @ p @ post" by simp_all
        have "last (c' # more) = last pre"
          using last_dropWhile [OF dp_ne] dp by simp
        with lastpre c cr(1) have more: "more \<noteq> []" "is_sep (last more)"
          by (auto split: if_splits)
        then have lm: "last more \<in> set more" "\<not> ?ns (last more)" by simp_all
        have rest_eq: "rest = dropWhile ?ns more @ p @ post"
          unfolding rest_def cr(2) using lm by (rule dropWhile_append1)
        have dm_ne: "dropWhile ?ns more \<noteq> []" using lm by auto
        have "last (dropWhile ?ns more) = last more" using dm_ne by (rule last_dropWhile)
        with more(2) have "is_sep (last (dropWhile ?ns more))" by simp
        with rest_eq e(1,2,5) have "is_entry rest p" unfolding is_entry_def by blast
        with IH tok show ?thesis by simp
      qed
    qed
  qed
qed


lemma parseAllowlist_listed: "parseAllowlist raw = listed_addresses raw"
proof (cases raw)
  case None
  then show ?thesis by (simp add: parseAllowlist_def listed_addresses_def)
next
  case (Some r)
  have ent: "{p. is_entry r p \<and> is_address p} = set (filter is_address (tokens r))"
    by (auto simp: tokens_entry)
  have "parseAllowlist (Some r) = set (map toLowerCase (filter is_address (tokens r)))"
    by (simp add: parseAllowlist_def allowlist_parts_tokens tokens_Nil)
  also have "\<dots> = listed_addresses (Some r)"
    by (simp only: listed_addresses_def option.case ent set_map)
  finally show ?thesis using Some by simp
qed

subsection \<open>The query\<close>

lemma keeps_iff_active_spec:
  assumes "\<bar>nowSec\<bar> < 2 ^ 53"
  shows "keeps cfg nowSec p = active_spec cfg nowSec p"
  using Number_of_le [OF assms, of "expiry (porder p)"]
  by (auto simp: keeps_def active_spec_def Let_def fromPersistedOrder_def isSellOrder_def
        isExpired_def normAddr_def parseAllowlist_listed)

text \<open>
  C3.  With the clock in the range where a double holds every integer, the query
  returns nothing for a missing index and otherwise exactly the entries, in the order
  of the index, that are open, sell-side, priced in the quote token, of one unit, not
  expired and, when the configured list has an entry that is a well-formed address, of a
  collection equal (without case) to such an entry.
\<close>

theorem getActiveSellOrders_exact:
  assumes "\<bar>nowSec\<bar> < 2 ^ 53"
  shows "getActiveSellOrders cfg None nowSec = [] \<and>
         getActiveSellOrders cfg (Some st) nowSec
           = map out_entry (filter (\<lambda>kp. active_spec cfg nowSec (snd kp)) (ordersByKey st))"
  by (simp add: getActiveSellOrders_def keeps_iff_active_spec [OF assms])

lemma sample_listing_parts:
  "allowlist_parts ''0xAAAAAAAAAAAAAAAAAAAAAAAAAAAAAAAAAAAAAAAA, junk'' = [''0xAAAAAAAAAAAAAAAAAAAAAAAAAAAAAAAAAAAAAAAA'', ''junk'']"
  by (simp add: allowlist_parts_def split_seps_def is_sep_def is_space_def trim_def)

lemma sample_listing_addresses:
  "listed_addresses (Some ''0xAAAAAAAAAAAAAAAAAAAAAAAAAAAAAAAAAAAAAAAA, junk'') = {''0xaaaaaaaaaaaaaaaaaaaaaaaaaaaaaaaaaaaaaaaa''}"
  unfolding parseAllowlist_listed [symmetric]
  by (simp add: parseAllowlist_def sample_listing_parts is_address_def is_hex_def char_eval)

theorem getActiveSellOrders_exact_witness:
  "\<bar>1700000000 :: int\<bar> < 2 ^ 53 \<and>
   map orderKey (getActiveSellOrders sample_cfg (Some sample_index) 1700000000) = [''0xk1''] \<and>
   map orderKey (getActiveSellOrders sample_listing (Some sample_index2) 1700000000) = [''0xk1''] \<and>
   map orderKey (getActiveSellOrders sample_listing (Some sample_index) 1700000000) = []"
proof -
  have n: "listed_addresses None = {}" by (simp add: listed_addresses_def)
  have a: "toLowerCase ''0xaaaaaaaaaaaaaaaaaaaaaaaaaaaaaaaaaaaaaaaa'' = ''0xaaaaaaaaaaaaaaaaaaaaaaaaaaaaaaaaaaaaaaaa''" "toLowerCase ''0xbbbbbbbbbbbbbbbbbbbbbbbbbbbbbbbbbbbbbbbb'' = ''0xbbbbbbbbbbbbbbbbbbbbbbbbbbbbbbbbbbbbbbbb''"
    "toLowerCase ''0xCd'' = ''0xcd''" "toLowerCase ''0xEf'' = ''0xef''" "toLowerCase ''0xEF'' = ''0xef''"
    "toLowerCase ''0xAb'' = ''0xab''" "toLowerCase ''0xef'' = ''0xef''" "toLowerCase ''0xcd'' = ''0xcd''"
    by (simp_all add: char_eval)
  show ?thesis
    using getActiveSellOrders_exact [of 1700000000 sample_cfg sample_index]
      getActiveSellOrders_exact [of 1700000000 sample_listing sample_index2]
      getActiveSellOrders_exact [of 1700000000 sample_listing sample_index]
    by (simp add: active_spec_def sample_cfg_def sample_listing_def sample_index_def
        sample_index2_def sample_entry_def sample_order_def sample_order_of_def
        toPersistedOrder_def normAddr_def out_entry_def n a sample_listing_addresses)
qed

text \<open>
  With a list configured that has two entries, neither of them an address, the query
  still returns the order of a collection that is not in the list.
\<close>

theorem getActiveSellOrders_malformed_allowlist:
  "allowlist_parts ''foo, 0x12'' = [''foo'', ''0x12''] \<and>
   map (\<lambda>p. (orderKey p, collectionAddr (nft (porder p))))
     (getActiveSellOrders (sample_cfg\<lparr>COLLECTION_ALLOWLIST := Some ''foo, 0x12''\<rparr>)
        (Some sample_index) 1700000000)
     = [(''0xk1'', ''0xcd'')]"
proof -
  have a: "toLowerCase ''0xCd'' = ''0xcd''" "toLowerCase ''0xEf'' = ''0xef''" "toLowerCase ''0xEF'' = ''0xef''"
    "toLowerCase ''0xAb'' = ''0xab''" "toLowerCase ''0xef'' = ''0xef''"
    by (simp_all add: char_eval)
  have e: "(Number_of 1000 \<le> 1700000000) = ((1000::int) \<le> 1700000000)"
    by (rule Number_of_le) simp
  show ?thesis
    by (simp add: getActiveSellOrders_def keeps_def Let_def sample_cfg_def sample_index_def
        sample_entry_def sample_order_def toPersistedOrder_def fromPersistedOrder_def
        isSellOrder_def isExpired_def normAddr_def out_entry_def parseAllowlist_def
        allowlist_parts_example is_address_def a e)
qed

section \<open>Properties of the synchronisation\<close>

text \<open>With a positive step the chunk loop ends: a bound of \<open>head + 1 - from\<close> iterations is enough.\<close>

lemma sync_loop_enough_fuel:
  assumes "0 < step" "nat (head + 1 - lo) \<le> fuel"
  shows "fst (sync_loop fuel scan step head lo state w scanned written) \<noteq> None"
  using assms(2)
proof (induction fuel arbitrary: lo state w scanned written)
  case 0
  then show ?case by simp
next
  case (Suc fuel)
  show ?case
  proof (cases "lo \<le> head")
    case False
    then show ?thesis by simp
  next
    case True
    obtain r w' where sc: "scan w state lo (min head (lo + step - 1)) = (r, w')"
      by (cases "scan w state lo (min head (lo + step - 1))")
    show ?thesis
    proof (cases r)
      case (Inl e)
      with True sc show ?thesis by (simp add: Let_def)
    next
      case (Inr state')
      have "nat (head + 1 - (lo + step)) \<le> fuel"
        using Suc.prems True assms(1) by linarith
      from Suc.IH [OF this] True sc Inr show ?thesis by (simp add: Let_def)
    qed
  qed
qed

lemma sync_loop_scanned_prefix:
  "\<exists>rest. fst (snd (sync_loop fuel scan step head lo state w scanned written)) = scanned @ rest"
proof (induction fuel arbitrary: lo state w scanned written)
  case 0
  then show ?case by simp
next
  case (Suc fuel)
  show ?case
  proof (cases "lo \<le> head")
    case False
    then show ?thesis by simp
  next
    case True
    obtain r w' where sc: "scan w state lo (min head (lo + step - 1)) = (r, w')"
      by (cases "scan w state lo (min head (lo + step - 1))")
    show ?thesis
    proof (cases r)
      case (Inl e)
      with True sc show ?thesis by (simp add: Let_def)
    next
      case (Inr state')
      from Suc.IH [of "lo + step" "state'\<lparr>lastScannedBlock := min head (lo + step - 1)\<rparr>" w'
          "scanned @ [(lo, min head (lo + step - 1))]"
          "written @ [state'\<lparr>lastScannedBlock := min head (lo + step - 1)\<rparr>]"]
      obtain rest where "fst (snd (sync_loop fuel scan step head (lo + step)
           (state'\<lparr>lastScannedBlock := min head (lo + step - 1)\<rparr>) w'
           (scanned @ [(lo, min head (lo + step - 1))])
           (written @ [state'\<lparr>lastScannedBlock := min head (lo + step - 1)\<rparr>])))
         = (scanned @ [(lo, min head (lo + step - 1))]) @ rest" by blast
      with True sc Inr show ?thesis by (simp add: Let_def)
    qed
  qed
qed

lemma sync_loop_first:
  assumes "lo \<le> head"
  shows "\<exists>rest. fst (snd (sync_loop (Suc fuel) scan step head lo state w [] []))
            = (lo, min head (lo + step - 1)) # rest"
proof -
  obtain r w' where sc: "scan w state lo (min head (lo + step - 1)) = (r, w')"
    by (cases "scan w state lo (min head (lo + step - 1))")
  show ?thesis
  proof (cases r)
    case (Inl e)
    with assms sc show ?thesis by (simp add: Let_def)
  next
    case (Inr state')
    from sync_loop_scanned_prefix [of fuel scan step head "lo + step"
        "state'\<lparr>lastScannedBlock := min head (lo + step - 1)\<rparr>" w'
        "[(lo, min head (lo + step - 1))]"
        "[state'\<lparr>lastScannedBlock := min head (lo + step - 1)\<rparr>]"]
    obtain rest where "fst (snd (sync_loop fuel scan step head (lo + step)
           (state'\<lparr>lastScannedBlock := min head (lo + step - 1)\<rparr>) w'
           [(lo, min head (lo + step - 1))]
           [state'\<lparr>lastScannedBlock := min head (lo + step - 1)\<rparr>]))
         = [(lo, min head (lo + step - 1))] @ rest" by blast
    with assms sc Inr show ?thesis by (simp add: Let_def)
  qed
qed

text \<open>
  C2.  For a loaded state that matches the configuration, the start block is the
  maximum of the block after the last scanned one and the configured start block, or,
  when none is configured (a value that is not positive), the block 50000 below the
  head (at least 1).  A start above the head ends the run at once, nothing scanned and
  nothing written; otherwise the first range scanned begins at the start block.
\<close>

theorem sync_start_block:
  assumes ens: "ch_ensureProvider ch w = (None, w0)"
      and hd: "ch_getBlockNumber ch w0 = (Inr head, w1)"
      and ex: "state_matches cfg ex"
  shows "start_block cfg ex head
           = max (if INDEXER_FROM_BLOCK cfg > 0 then INDEXER_FROM_BLOCK cfg else max 1 (head - 50000))
                 (lastScannedBlock ex + 1) \<and>
         (start_block cfg ex head > head \<longrightarrow>
            sync ch cfg (Some ex) step fuel w = (Some (Inr ()), [], [], w1)) \<and>
         (start_block cfg ex head \<le> head \<longrightarrow>
            first_scanned (sync ch cfg (Some ex) step (Suc fuel) w) = Some (start_block cfg ex head))"
proof -
  have st: "initial_state cfg (Some ex) = ex"
    using ex by (simp add: initial_state_def)
  have a: "start_block cfg ex head
           = max (if INDEXER_FROM_BLOCK cfg > 0 then INDEXER_FROM_BLOCK cfg else max 1 (head - 50000))
                 (lastScannedBlock ex + 1)"
    by (simp add: start_block_def effective_fromBlock_def)
  have b: "start_block cfg ex head > head \<longrightarrow>
            sync ch cfg (Some ex) step fuel w = (Some (Inr ()), [], [], w1)"
    by (simp add: sync_def ens hd st)
  have c: "start_block cfg ex head \<le> head \<longrightarrow>
            first_scanned (sync ch cfg (Some ex) step (Suc fuel) w) = Some (start_block cfg ex head)"
  proof
    assume le: "start_block cfg ex head \<le> head"
    then have eq: "sync ch cfg (Some ex) step (Suc fuel) w
          = sync_loop (Suc fuel) (scanRange ch) step head (start_block cfg ex head) ex w1 [] []"
      by (simp add: sync_def ens hd st Let_def)
    from sync_loop_first [OF le, of fuel "scanRange ch" step ex w1]
    obtain rest where "fst (snd (sync_loop (Suc fuel) (scanRange ch) step head (start_block cfg ex head) ex w1 [] []))
        = (start_block cfg ex head, min head (start_block cfg ex head + step - 1)) # rest" by blast
    then show "first_scanned (sync ch cfg (Some ex) step (Suc fuel) w) = Some (start_block cfg ex head)"
      by (simp add: eq first_scanned_def)
  qed
  show ?thesis using a b c by blast
qed


lemma sample_matches: "state_matches sample_cfg sample_index"
  by (simp add: state_matches_def sample_cfg_def sample_index_def char_eval)

theorem sync_start_block_witness:
  "ch_ensureProvider (quiet_chain 10) () = (None, ()) \<and>
   ch_getBlockNumber (quiet_chain 10) () = (Inr 10, ()) \<and>
   state_matches sample_cfg sample_index \<and>
   start_block sample_cfg sample_index 10 = 21 \<and>
   sync (quiet_chain 10) sample_cfg (Some sample_index) 500 5 () = (Some (Inr ()), [], [], ())"
proof -
  have e: "ch_ensureProvider (quiet_chain 10) () = (None, ())" by (simp add: quiet_chain_def)
  have h: "ch_getBlockNumber (quiet_chain 10) () = (Inr 10, ())" by (simp add: quiet_chain_def)
  have s: "start_block sample_cfg sample_index 10 = 21"
    by (simp add: start_block_def effective_fromBlock_def sample_cfg_def sample_index_def)
  show ?thesis
    using sync_start_block [OF e h sample_matches, of 500 5] e h s sample_matches by simp
qed

text \<open>
  With no start block configured and the head at 100000, the run over the sample index
  (last scanned block 20) starts at 50000, not at \<open>max 0 21\<close>.
\<close>

lemma getLogsSafe_first_try:
  "fetch w lo hi = (Inr logs, w') \<Longrightarrow> getLogsSafe fetch w lo hi = (Inr logs, [], w')"
  by (simp add: getLogsSafe_def getLogsSafe_loop.simps)

theorem sync_start_not_configured_max:
  "first_scanned (sync (quiet_chain 100000) sample_cfg (Some sample_index) 500 (Suc 0) ())
     = Some 50000 \<and>
   max (INDEXER_FROM_BLOCK sample_cfg) (lastScannedBlock sample_index + 1) = 21"
proof -
  have st: "initial_state sample_cfg (Some sample_index) = sample_index"
    using sample_matches by (simp add: initial_state_def)
  have sb: "start_block sample_cfg sample_index 100000 = 50000"
    by (simp add: start_block_def effective_fromBlock_def sample_cfg_def sample_index_def)
  have sc: "scanRange (quiet_chain 100000) () sample_index 50000 50499
              = (Inr (apply_logs sample_index [] [] []), ())"
    by (simp add: scanRange_def quiet_chain_def getLogsSafe_first_try)
  have "first_scanned (sync (quiet_chain 100000) sample_cfg (Some sample_index) 500 (Suc 0) ())
          = Some 50000"
    by (simp add: sync_def st sb sc first_scanned_def Let_def quiet_chain_def [of 100000, THEN arg_cong [of _ _ ch_ensureProvider]]
          quiet_chain_def [of 100000, THEN arg_cong [of _ _ ch_getBlockNumber]])
  moreover have "max (INDEXER_FROM_BLOCK sample_cfg) (lastScannedBlock sample_index + 1) = 21"
    by (simp add: sample_cfg_def sample_index_def)
  ultimately show ?thesis by simp
qed

section \<open>Properties of the resilient log fetch\<close>

lemma loop_fail_wide:
  "fetch w lo hi = (Inl e, w') \<Longrightarrow> lo < hi \<Longrightarrow>
   getLogsSafe_loop fetch w ((lo, hi, a) # stack) out waits
     = getLogsSafe_loop fetch w'
         ((lo, mid_of lo hi, a + 1) # (mid_of lo hi + 1, hi, a + 1) # stack) out waits"
  by (simp add: getLogsSafe_loop.simps)

lemma loop_fail_single_retry:
  "fetch w lo hi = (Inl e, w') \<Longrightarrow> \<not> lo < hi \<Longrightarrow> a < 2 \<Longrightarrow>
   getLogsSafe_loop fetch w ((lo, hi, a) # stack) out waits
     = getLogsSafe_loop fetch w' ((lo, hi, a + 1) # stack) out (waits @ [500 * (a + 1)])"
  by (simp add: getLogsSafe_loop.simps)

lemma loop_fail_single_throw:
  "fetch w lo hi = (Inl e, w') \<Longrightarrow> \<not> lo < hi \<Longrightarrow> \<not> a < 2 \<Longrightarrow>
   getLogsSafe_loop fetch w ((lo, hi, a) # stack) out waits = (Inl e, waits, w')"
  by (simp add: getLogsSafe_loop.simps)

lemma loop_success:
  "fetch w lo hi = (Inr logs, w') \<Longrightarrow>
   getLogsSafe_loop fetch w ((lo, hi, a) # stack) out waits
     = getLogsSafe_loop fetch w' stack (out @ logs) waits"
  by (simp add: getLogsSafe_loop.simps)

lemma loop_done: "getLogsSafe_loop fetch w [] out waits = (Inr out, waits, w)"
  by (simp add: getLogsSafe_loop.simps)

lemma loop_waits:
  "set (fst (snd (getLogsSafe_loop fetch w stack out waits))) \<subseteq> set waits \<union> {500, 1000}"
proof (induction fetch w stack out waits rule: getLogsSafe_loop.induct)
  case (1 fetch w out waits)
  then show ?case by (auto simp: loop_done)
next
  case (2 fetch w lo hi attempts stack out waits)
  obtain r w' where f: "fetch w lo hi = (r, w')" by (cases "fetch w lo hi")
  show ?case
  proof (cases r)
    case (Inr logs)
    with f "2.IH"(3) [OF f [symmetric] Inr] show ?thesis
      by (auto simp: loop_success)
  next
    case (Inl e)
    show ?thesis
    proof (cases "lo < hi")
      case True
      with f Inl "2.IH"(1) [OF f [symmetric] Inl True] show ?thesis
        by (auto simp: loop_fail_wide)
    next
      case False
      show ?thesis
      proof (cases "attempts < 2")
        case True
        then have "attempts = 0 \<or> attempts = 1" by auto
        with f Inl False True "2.IH"(2) [OF f [symmetric] Inl False True] show ?thesis
          by (auto simp: loop_fail_single_retry)
      next
        case nt: False
        with f Inl False show ?thesis by (auto simp: loop_fail_single_throw)
      qed
    qed
  qed
qed

lemma single_block_waits: "length (fst (snd (getLogsSafe fetch w b b))) \<le> 2"
proof -
  obtain r1 w1 where f1: "fetch w b b = (r1, w1)" by (cases "fetch w b b")
  obtain r2 w2 where f2: "fetch w1 b b = (r2, w2)" by (cases "fetch w1 b b")
  obtain r3 w3 where f3: "fetch w2 b b = (r3, w3)" by (cases "fetch w2 b b")
  show ?thesis
    using f1 f2 f3
    by (cases r1; cases r2; cases r3)
       (simp_all add: getLogsSafe_def loop_fail_single_retry loop_fail_single_throw loop_success loop_done)
qed

text \<open>
  Once a range has been split, every single block below it starts with a counter of at
  least 1, so the only wait left is the one of 1000 ms.
\<close>

lemma loop_waits_inherited:
  assumes "\<forall>r \<in> set stack. fst r < fst (snd r) \<or> 1 \<le> snd (snd r)"
  shows "set (fst (snd (getLogsSafe_loop fetch w stack out waits))) \<subseteq> set waits \<union> {1000}"
  using assms
proof (induction fetch w stack out waits rule: getLogsSafe_loop.induct)
  case (1 fetch w out waits)
  then show ?case by (auto simp: loop_done)
next
  case (2 fetch w lo hi attempts stack out waits)
  obtain r w' where f: "fetch w lo hi = (r, w')" by (cases "fetch w lo hi")
  have rest: "\<forall>r \<in> set stack. fst r < fst (snd r) \<or> 1 \<le> snd (snd r)"
    using "2.prems" by simp
  show ?case
  proof (cases r)
    case (Inr logs)
    with f "2.IH"(3) [OF f [symmetric] Inr rest] show ?thesis
      by (auto simp: loop_success)
  next
    case (Inl e)
    show ?thesis
    proof (cases "lo < hi")
      case True
      have inv: "\<forall>r \<in> set ((lo, mid_of lo hi, attempts + 1) # (mid_of lo hi + 1, hi, attempts + 1) # stack).
                   fst r < fst (snd r) \<or> 1 \<le> snd (snd r)"
        using rest by simp
      with f Inl "2.IH"(1) [OF f [symmetric] Inl True inv] True show ?thesis
        by (auto simp: loop_fail_wide)
    next
      case False
      with "2.prems" have one: "1 \<le> attempts" by simp
      show ?thesis
      proof (cases "attempts < 2")
        case True
        with one have a1: "attempts = 1" by simp
        have inv: "\<forall>r \<in> set ((lo, hi, attempts + 1) # stack).
                     fst r < fst (snd r) \<or> 1 \<le> snd (snd r)"
          using rest by simp
        with f Inl False True a1 "2.IH"(2) [OF f [symmetric] Inl False True inv] show ?thesis
          by (auto simp: loop_fail_single_retry)
      next
        case nt: False
        with f Inl False show ?thesis by (auto simp: loop_fail_single_throw)
      qed
    qed
  qed
qed

lemma wide_range_waits:
  assumes "lo < hi"
  shows "set (fst (snd (getLogsSafe fetch w lo hi))) \<subseteq> {1000}"
  using loop_waits_inherited [of "[(lo, hi, 0)]" fetch w "[]" "[]"] assms
  by (simp add: getLogsSafe_def)

text \<open>
  C5.  A failed fetch of a range of more than one block puts its two halves, split at
  the midpoint, on the stack, each with its own attempt counter, one more than that of
  the failed range, the lower half on top; when both halves then succeed the logs come
  back in block order.  A failed fetch of a single block is retried, after a wait of
  500 ms times the counter plus one, while its counter is below 2; with a counter of 2
  or more its error goes to the caller at once.  So a single block asked for directly
  is retried up to twice (waits of 500 and 1000 ms), a single block that comes from one
  split at most once (wait of 1000 ms), and one that comes from two splits not at all.
  No request for a single block waits more than twice, every wait is 500 or 1000 ms,
  and a request for more than one block only ever waits 1000 ms.
\<close>

theorem getLogsSafe_bisect_and_retry:
  "(fetch w lo hi = (Inl e, w') \<and> lo < hi \<longrightarrow>
      getLogsSafe_loop fetch w ((lo, hi, a) # stack) out waits
        = getLogsSafe_loop fetch w'
            ((lo, (lo + hi) div 2, a + 1) # ((lo + hi) div 2 + 1, hi, a + 1) # stack) out waits) \<and>
   (fetch w b b = (Inl e, w') \<and> a < 2 \<longrightarrow>
      getLogsSafe_loop fetch w ((b, b, a) # stack) out waits
        = getLogsSafe_loop fetch w' ((b, b, a + 1) # stack) out (waits @ [500 * (a + 1)])) \<and>
   (fetch w b b = (Inl e, w') \<and> 2 \<le> a \<longrightarrow>
      getLogsSafe_loop fetch w ((b, b, a) # stack) out waits = (Inl e, waits, w')) \<and>
   (fetch w b b = (Inl e1, w1) \<and> fetch w1 b b = (Inl e2, w2) \<and> fetch w2 b b = (Inl e3, w3) \<longrightarrow>
      getLogsSafe fetch w b b = (Inl e3, [500, 1000], w3)) \<and>
   (fetch w b b = (Inl e1, w1) \<and> fetch w1 b b = (Inl e2, w2) \<and> fetch w2 b b = (Inr logs, w3) \<longrightarrow>
      getLogsSafe fetch w b b = (Inr logs, [500, 1000], w3)) \<and>
   (fetch w b b = (Inl e1, w1) \<and> fetch w1 b b = (Inr logs, w2) \<longrightarrow>
      getLogsSafe fetch w b b = (Inr logs, [500], w2)) \<and>
   (fetch w lo hi = (Inl e, w') \<and> lo < hi \<and>
    fetch w' lo ((lo + hi) div 2) = (Inr logs1, w1) \<and>
    fetch w1 ((lo + hi) div 2 + 1) hi = (Inr logs2, w2) \<longrightarrow>
      getLogsSafe fetch w lo hi = (Inr (logs1 @ logs2), [], w2)) \<and>
   (fetch w b (b + 1) = (Inl e1, w1) \<and> fetch w1 b b = (Inl e2, w2) \<and> fetch w2 b b = (Inl e3, w3) \<longrightarrow>
      getLogsSafe fetch w b (b + 1) = (Inl e3, [1000], w3)) \<and>
   (fetch w b (b + 3) = (Inl e1, w1) \<and> fetch w1 b (b + 1) = (Inl e2, w2) \<and>
    fetch w2 b b = (Inl e3, w3) \<longrightarrow>
      getLogsSafe fetch w b (b + 3) = (Inl e3, [], w3)) \<and>
   length (fst (snd (getLogsSafe fetch w b b))) \<le> 2 \<and>
   set (fst (snd (getLogsSafe fetch w lo hi))) \<subseteq> {500, 1000} \<and>
   (lo < hi \<longrightarrow> set (fst (snd (getLogsSafe fetch w lo hi))) \<subseteq> {1000})"
proof (intro conjI impI; (elim conjE)?)
  assume "fetch w lo hi = (Inl e, w')" "lo < hi"
  then show "getLogsSafe_loop fetch w ((lo, hi, a) # stack) out waits
        = getLogsSafe_loop fetch w'
            ((lo, (lo + hi) div 2, a + 1) # ((lo + hi) div 2 + 1, hi, a + 1) # stack) out waits"
    using loop_fail_wide [of fetch w lo hi e w' a stack out waits] by (simp add: mid_of_def)
next
  assume "fetch w b b = (Inl e, w')" "a < 2"
  then show "getLogsSafe_loop fetch w ((b, b, a) # stack) out waits
        = getLogsSafe_loop fetch w' ((b, b, a + 1) # stack) out (waits @ [500 * (a + 1)])"
    by (simp add: loop_fail_single_retry)
next
  assume "fetch w b b = (Inl e, w')" "2 \<le> a"
  then show "getLogsSafe_loop fetch w ((b, b, a) # stack) out waits = (Inl e, waits, w')"
    by (simp add: loop_fail_single_throw)
next
  assume "fetch w b b = (Inl e1, w1)" "fetch w1 b b = (Inl e2, w2)" "fetch w2 b b = (Inl e3, w3)"
  then show "getLogsSafe fetch w b b = (Inl e3, [500, 1000], w3)"
    by (simp add: getLogsSafe_def loop_fail_single_retry loop_fail_single_throw)
next
  assume "fetch w b b = (Inl e1, w1)" "fetch w1 b b = (Inl e2, w2)" "fetch w2 b b = (Inr logs, w3)"
  then show "getLogsSafe fetch w b b = (Inr logs, [500, 1000], w3)"
    by (simp add: getLogsSafe_def loop_fail_single_retry loop_success loop_done)
next
  assume "fetch w b b = (Inl e1, w1)" "fetch w1 b b = (Inr logs, w2)"
  then show "getLogsSafe fetch w b b = (Inr logs, [500], w2)"
    by (simp add: getLogsSafe_def loop_fail_single_retry loop_success loop_done)
next
  assume "fetch w lo hi = (Inl e, w')" "lo < hi"
    "fetch w' lo ((lo + hi) div 2) = (Inr logs1, w1)"
    "fetch w1 ((lo + hi) div 2 + 1) hi = (Inr logs2, w2)"
  then show "getLogsSafe fetch w lo hi = (Inr (logs1 @ logs2), [], w2)"
    by (simp add: getLogsSafe_def loop_fail_wide loop_success loop_done mid_of_def)
next
  assume f: "fetch w b (b + 1) = (Inl e1, w1)" "fetch w1 b b = (Inl e2, w2)"
    "fetch w2 b b = (Inl e3, w3)"
  have m: "mid_of b (b + 1) = b" by (simp add: mid_of_def)
  show "getLogsSafe fetch w b (b + 1) = (Inl e3, [1000], w3)"
    using f by (simp add: getLogsSafe_def loop_fail_wide m loop_fail_single_retry loop_fail_single_throw)
next
  assume f: "fetch w b (b + 3) = (Inl e1, w1)" "fetch w1 b (b + 1) = (Inl e2, w2)"
    "fetch w2 b b = (Inl e3, w3)"
  have m: "mid_of b (b + 3) = b + 1" "mid_of b (b + 1) = b" by (simp_all add: mid_of_def)
  show "getLogsSafe fetch w b (b + 3) = (Inl e3, [], w3)"
    using f by (simp add: getLogsSafe_def loop_fail_wide m loop_fail_single_throw)
next
  show "length (fst (snd (getLogsSafe fetch w b b))) \<le> 2"
    by (rule single_block_waits)
next
  show "set (fst (snd (getLogsSafe fetch w lo hi))) \<subseteq> {500, 1000}"
    using loop_waits [of fetch w "[(lo, hi, 0)]" "[]" "[]"] by (simp add: getLogsSafe_def)
next
  assume "lo < hi"
  then show "set (fst (snd (getLogsSafe fetch w lo hi))) \<subseteq> {1000}"
    by (rule wide_range_waits)
qed

theorem getLogsSafe_bisect_and_retry_witness:
  "getLogsSafe (failing_fetch 3) 0 7 7 = (Inl (Remote CallFailed), [500, 1000], 3) \<and>
   getLogsSafe (failing_fetch 1) 0 0 3 = (Inr [(0, 1), (2, 3)], [], 3) \<and>
   getLogsSafe (failing_fetch 3) 0 7 8 = (Inl (Remote CallFailed), [1000], 3)"
  using getLogsSafe_bisect_and_retry [where fetch = "failing_fetch 3" and w = 0 and b = 7
      and ?e1.0 = "Remote CallFailed" and ?w1.0 = 1 and ?e2.0 = "Remote CallFailed" and ?w2.0 = 2
      and ?e3.0 = "Remote CallFailed" and ?w3.0 = 3]
    getLogsSafe_bisect_and_retry [where fetch = "failing_fetch 1" and w = 0 and lo = 0 and hi = 3
      and e = "Remote CallFailed" and w' = 1 and ?logs1.0 = "[(0, 1)]" and ?w1.0 = 2
      and ?logs2.0 = "[(2, 3)]" and ?w2.0 = 3]
  by (simp add: failing_fetch_def)

text \<open>
  With every call failing, the request for the blocks 0 to 3 ends at the single block
  0, which is not tried a second time: three calls, no wait.
\<close>

theorem getLogsSafe_deep_block_not_retried:
  "getLogsSafe (failing_fetch 3) 0 0 3 = (Inl (Remote CallFailed), [], 3)"
  by (simp add: getLogsSafe_def getLogsSafe_loop.simps failing_fetch_def mid_of_def)

section \<open>Properties of the order matcher\<close>

lemma no_submission_bindE:
  assumes "no_submission (fst m)" and "\<And>x. snd m = Inr x \<Longrightarrow> no_submission (fst (f x))"
  shows "no_submission (fst (bindE m f))"
  using assms
  by (cases m) (auto simp: bindE_def no_submission_def split: sum.splits prod.splits)

lemma no_submission_pure [simp]: "no_submission (fst (pure_step r))"
  by (simp add: pure_step_def no_submission_def)

lemma no_submission_pickProvider: "no_submission (fst (pickProvider env us))"
  by (induction us) (auto simp: no_submission_def split: prod.splits)

lemma no_submission_ensureAllowance:
  "dryRun opts \<Longrightarrow> no_submission (fst (ensureAllowance env cfg owner required opts))"
  unfolding ensureAllowance_def
  by (rule no_submission_bindE) (auto simp: no_submission_def Let_def pure_step_def)

lemma no_submission_matchOrder:
  assumes "dryRun opts"
  shows "no_submission (fst (matchOrder env cfg sell opts))"
  unfolding matchOrder_def
  by (intro no_submission_bindE no_submission_pickProvider no_submission_pure
        no_submission_ensureAllowance assms)
     (simp add: assms)

lemma bindE_result:
  "snd (bindE m f) = (case snd m of Inl e \<Rightarrow> Inl e | Inr x \<Rightarrow> snd (f x))"
  by (cases m) (auto simp: bindE_def split: sum.splits prod.splits)

lemma ensureAllowance_dry_result:
  "dryRun opts \<Longrightarrow>
   snd (ensureAllowance env cfg owner required opts)
     = (case me_allowance env of Inl e \<Rightarrow> Inl e | Inr _ \<Rightarrow> Inr ())"
  by (auto simp: ensureAllowance_def bindE_result pure_step_def Let_def split: sum.splits)

lemma matchOrder_dry_result:
  assumes "dryRun opts"
  shows "snd (matchOrder env cfg sell opts) =
           and_then (snd (pickProvider env (endpoint_urls cfg))) (\<lambda>_.
           and_then (me_wallet env) (\<lambda>buyer.
           and_then (currency_check env cfg sell) (\<lambda>_.
           and_then (me_allowance env) (\<lambda>_.
           and_then (buildBuyOrderFromSell env sell buyer 300) (\<lambda>_. Inr None)))))"
  using assms
  by (auto simp: matchOrder_def bindE_result ensureAllowance_dry_result and_then_def pure_step_def
        split: sum.splits)

text \<open>
  C4.  In a dry run no approval and no match transaction is submitted.  The run still
  picks an endpoint, builds the wallet, compares the currencies and reads the
  allowance, and the result is \<^verbatim>\<open>null\<close> exactly when all of these and the building of
  the buy order succeed; otherwise it is the error of the first step that fails.
\<close>

theorem matchOrder_dry_run:
  assumes "dryRun opts"
  shows "no_submission (fst (matchOrder env cfg sell opts)) \<and>
         snd (matchOrder env cfg sell opts) =
           and_then (snd (pickProvider env (endpoint_urls cfg))) (\<lambda>_.
           and_then (me_wallet env) (\<lambda>buyer.
           and_then (currency_check env cfg sell) (\<lambda>_.
           and_then (me_allowance env) (\<lambda>_.
           and_then (buildBuyOrderFromSell env sell buyer 300) (\<lambda>_. Inr None))))) \<and>
         (snd (matchOrder env cfg sell opts) = Inr None \<or>
          (\<exists>e. snd (matchOrder env cfg sell opts) = Inl e))"
proof -
  have a: "no_submission (fst (matchOrder env cfg sell opts))"
    using assms by (rule no_submission_matchOrder)
  have b: "snd (matchOrder env cfg sell opts) =
           and_then (snd (pickProvider env (endpoint_urls cfg))) (\<lambda>_.
           and_then (me_wallet env) (\<lambda>buyer.
           and_then (currency_check env cfg sell) (\<lambda>_.
           and_then (me_allowance env) (\<lambda>_.
           and_then (buildBuyOrderFromSell env sell buyer 300) (\<lambda>_. Inr None)))))"
    using assms by (rule matchOrder_dry_result)
  have c: "snd (matchOrder env cfg sell opts) = Inr None \<or>
          (\<exists>e. snd (matchOrder env cfg sell opts) = Inl e)"
    unfolding b by (auto simp: and_then_def split: sum.splits)
  show ?thesis using a b c by blast
qed

lemma sample_run:
  "matchOrder sample_env sample_mcfg (sample_sell ''0x2222222222222222222222222222222222222222'') dry
     = ([Probe ''http://rpc'',
         ReadAllowance ''0x1111111111111111111111111111111111111111''
           ''0x3333333333333333333333333333333333333333''],
        Inr None)"
  by (simp add: matchOrder_def bindE_def pure_step_def sample_env_def sample_mcfg_def sample_sell_def
      dry_def endpoint_urls_def currency_check_def checked_address_def and_then_def
      ensureAllowance_def buildBuyOrderFromSell_def Let_def)

theorem matchOrder_dry_run_witness:
  "dryRun dry \<and>
   no_submission (fst (matchOrder sample_env sample_mcfg
      (sample_sell ''0x2222222222222222222222222222222222222222'') dry)) \<and>
   snd (matchOrder sample_env sample_mcfg
      (sample_sell ''0x2222222222222222222222222222222222222222'') dry) = Inr None"
proof -
  have d: "dryRun dry" by (simp add: dry_def)
  show ?thesis
    using matchOrder_dry_run [OF d, of sample_env sample_mcfg
        "sample_sell ''0x2222222222222222222222222222222222222222''"] d
    by (simp add: sample_run)
qed

text \<open>
  A dry run on an order in another currency throws, and a dry run that returns
  \<^verbatim>\<open>null\<close> has read the allowance.
\<close>

theorem matchOrder_dry_run_not_always_null:
  "snd (matchOrder sample_env sample_mcfg (sample_sell ''0x6666666666666666666666666666666666666666'') dry)
     = Inl (CurrencyMismatch ''0x6666666666666666666666666666666666666666'') \<and>
   ReadAllowance ''0x1111111111111111111111111111111111111111''
       ''0x3333333333333333333333333333333333333333''
     \<in> set (fst (matchOrder sample_env sample_mcfg
                   (sample_sell ''0x2222222222222222222222222222222222222222'') dry))"
proof -
  have "matchOrder sample_env sample_mcfg (sample_sell ''0x6666666666666666666666666666666666666666'') dry
          = ([Probe ''http://rpc''], Inl (CurrencyMismatch ''0x6666666666666666666666666666666666666666''))"
    by (simp add: matchOrder_def bindE_def pure_step_def sample_env_def sample_mcfg_def sample_sell_def
        dry_def endpoint_urls_def currency_check_def checked_address_def and_then_def)
  then show ?thesis by (simp add: sample_run)
qed

section \<open>Properties of the decimal conversions\<close>

subsection \<open>Digits\<close>

lemma digit_val_digit_char: "k < 10 \<Longrightarrow> digit_val (digit_char k) = k"
  by (simp add: digit_val_def digit_char_def)

lemma is_digit_digit_char: "k < 10 \<Longrightarrow> is_digit (digit_char k)"
  by (simp add: is_digit_def digit_char_def)

lemma digit_not_special:
  "is_digit c \<Longrightarrow> \<not> is_space c \<and> c \<noteq> CHR '','' \<and> c \<noteq> CHR ''.'' \<and> c \<noteq> CHR ''-''"
  by (auto simp: is_digit_def is_space_def Let_def)

lemma zero_is_digit: "is_digit (CHR ''0'')"
  by (simp add: is_digit_def)

lemma digit_val_zero: "digit_val (CHR ''0'') = 0"
  by (simp add: digit_val_def)

lemma foldl_digits:
  "foldl (\<lambda>a c. 10 * a + digit_val c) a xs
     = a * 10 ^ length xs + foldl (\<lambda>a c. 10 * a + digit_val c) 0 xs"
proof (induction xs arbitrary: a)
  case Nil
  then show ?case by simp
next
  case (Cons x xs)
  have "foldl (\<lambda>a c. 10 * a + digit_val c) a (x # xs)
          = foldl (\<lambda>a c. 10 * a + digit_val c) (10 * a + digit_val x) xs" by simp
  also have "\<dots> = (10 * a + digit_val x) * 10 ^ length xs
                      + foldl (\<lambda>a c. 10 * a + digit_val c) 0 xs"
    by (rule Cons.IH)
  also have "foldl (\<lambda>a c. 10 * a + digit_val c) 0 (x # xs)
          = digit_val x * 10 ^ length xs + foldl (\<lambda>a c. 10 * a + digit_val c) 0 xs"
    using Cons.IH [of "digit_val x"] by simp
  ultimately show ?case by (simp add: algebra_simps)
qed

lemma nat_of_digits_append:
  "nat_of_digits (xs @ ys) = nat_of_digits xs * 10 ^ length ys + nat_of_digits ys"
  unfolding nat_of_digits_def foldl_append
  by (rule foldl_digits)

lemma nat_of_digits_Nil [simp]: "nat_of_digits [] = 0"
  by (simp add: nat_of_digits_def)

lemma nat_of_digits_single: "nat_of_digits [c] = digit_val c"
  by (simp add: nat_of_digits_def)

lemma nat_of_digits_zeros [simp]: "nat_of_digits (replicate k (CHR ''0'')) = 0"
  by (induction k) (simp_all add: nat_of_digits_def digit_val_zero)

lemma nat_of_digits_leading_zeros:
  "nat_of_digits (replicate k (CHR ''0'') @ xs) = nat_of_digits xs"
  by (simp add: nat_of_digits_append)

lemma nat_of_digits_all_zero:
  "list_all is_zero_char xs \<Longrightarrow> nat_of_digits xs = 0"
proof (induction xs rule: rev_induct)
  case Nil
  then show ?case by simp
next
  case (snoc x xs)
  then show ?case
    by (simp add: nat_of_digits_append nat_of_digits_single is_zero_char_def digit_val_zero)
qed

lemma digits_of_nat_digits: "list_all is_digit (digits_of_nat n)"
proof (induction n rule: digits_of_nat.induct)
  case (1 n)
  show ?case
  proof (cases "n < 10")
    case True
    then show ?thesis by (subst digits_of_nat.simps) (simp add: is_digit_digit_char)
  next
    case False
    with "1.IH" show ?thesis
      by (subst digits_of_nat.simps) (simp add: is_digit_digit_char)
  qed
qed

lemma digits_of_nat_nonempty: "digits_of_nat n \<noteq> []"
  by (subst digits_of_nat.simps) simp

lemma nat_of_digits_of_nat: "nat_of_digits (digits_of_nat n) = n"
proof (induction n rule: digits_of_nat.induct)
  case (1 n)
  show ?case
  proof (cases "n < 10")
    case True
    then show ?thesis
      by (subst digits_of_nat.simps) (simp add: nat_of_digits_single digit_val_digit_char)
  next
    case False
    with "1.IH" show ?thesis
      by (subst digits_of_nat.simps)
         (simp add: nat_of_digits_append nat_of_digits_single digit_val_digit_char)
  qed
qed

subsection \<open>Parsing\<close>

lemma amount_re_split:
  assumes "amount_re s"
  shows "list_all is_digit (whole_part s)" "whole_part s \<noteq> []" "list_all is_digit (frac_part s)"
        "s = whole_part s @ (if frac_part s = [] then [] else CHR ''.'' # frac_part s)"
proof -
  show "list_all is_digit (whole_part s)"
    by (simp add: whole_part_def list_all_iff) (meson set_takeWhileD)
  show "whole_part s \<noteq> []"
    using assms by (simp add: amount_re_def whole_part_def Let_def)
  have id: "s = takeWhile is_digit s @ dropWhile is_digit s" by simp
  show "list_all is_digit (frac_part s)"
  proof (cases "dropWhile is_digit s")
    case Nil
    show ?thesis unfolding frac_part_def Nil by simp
  next
    case (Cons c f)
    with assms show ?thesis by (simp add: amount_re_def frac_part_def Let_def)
  qed
  show "s = whole_part s @ (if frac_part s = [] then [] else CHR ''.'' # frac_part s)"
  proof (cases "dropWhile is_digit s")
    case Nil
    with id show ?thesis
      by (simp add: whole_part_def frac_part_def del: dropWhile_eq_Nil_conv takeWhile_eq_all_conv)
  next
    case (Cons c f)
    with assms have "c = CHR ''.''" "f \<noteq> []"
      by (auto simp: amount_re_def Let_def)
    with Cons id show ?thesis by (simp add: whole_part_def frac_part_def)
  qed
qed

lemma fixed_match_whole:
  assumes w: "list_all is_digit w" "w \<noteq> []"
      and rest: "rest = [] \<or> (\<exists>f. rest = CHR ''.'' # f)"
  shows "takeWhile is_digit (w @ rest) = w" "dropWhile is_digit (w @ rest) = rest"
        "(case w @ rest of c # _ \<Rightarrow> c = CHR ''-'' | [] \<Rightarrow> False) = False"
proof -
  obtain a w' where wa: "w = a # w'" using w(2) by (cases w) auto
  then have "is_digit a" using w(1) by simp
  then have notneg: "a \<noteq> CHR ''-''" using digit_not_special by blast
  have allw: "\<And>x. x \<in> set w \<Longrightarrow> is_digit x" using w(1) by (simp add: list_all_iff)
  have nd: "\<not> is_digit (CHR ''.'')" using digit_not_special by blast
  show "takeWhile is_digit (w @ rest) = w"
    using rest allw nd by auto
  show "dropWhile is_digit (w @ rest) = rest"
    using rest allw nd by auto
  show "(case w @ rest of c # _ \<Rightarrow> c = CHR ''-'' | [] \<Rightarrow> False) = False"
    using wa notneg by simp
qed

lemma fixed_match_digits:
  assumes w: "list_all is_digit w" "w \<noteq> []" and f: "list_all is_digit f"
  shows "fixed_match (w @ (if f = [] then [] else CHR ''.'' # f)) = Some (False, w, f)"
proof (cases "f = []")
  case True
  have r: "[] = [] \<or> (\<exists>g. [] = CHR ''.'' # g)" by simp
  note fw = fixed_match_whole [OF w r]
  have "fixed_match w = Some (False, w, [])"
    using fw by (simp add: fixed_match_def Let_def del: dropWhile_eq_Nil_conv takeWhile_eq_all_conv)
  with True show ?thesis by simp
next
  case False
  have r: "CHR ''.'' # f = [] \<or> (\<exists>g. CHR ''.'' # f = CHR ''.'' # g)" by simp
  note fw = fixed_match_whole [OF w r]
  have "fixed_match (w @ CHR ''.'' # f) = Some (False, w, f)"
    using fw f
    by (simp add: fixed_match_def Let_def del: dropWhile_eq_Nil_conv takeWhile_eq_all_conv)
  with False show ?thesis by simp
qed

lemma drop_padded_zero:
  "list_all is_zero_char (drop d (f @ replicate (d - length f) (CHR ''0'')))
     = list_all is_zero_char (drop d f)"
  by (simp add: is_zero_char_def)

lemma scaled_units_padded:
  "nat_of_digits (w @ take d (f @ replicate (d - length f) (CHR ''0''))) = scaled_units w f d"
proof -
  let ?z = "replicate (d - length f) (CHR ''0'')"
  have tk: "take d (f @ ?z) = take d f @ ?z" by simp
  have len: "length (take d f @ ?z) = d" by simp
  have k: "d - length f = d - length (take d f)" by simp
  have "nat_of_digits (w @ (take d f @ ?z))
          = nat_of_digits w * 10 ^ length (take d f @ ?z) + nat_of_digits (take d f @ ?z)"
    by (rule nat_of_digits_append)
  also have "nat_of_digits (take d f @ ?z)
          = nat_of_digits (take d f) * 10 ^ length ?z + nat_of_digits ?z"
    by (rule nat_of_digits_append)
  finally have "nat_of_digits (w @ (take d f @ ?z))
          = nat_of_digits w * 10 ^ d + nat_of_digits (take d f) * 10 ^ (d - length f)"
    by (simp only: len nat_of_digits_zeros length_replicate add_0_right)
  then show ?thesis
    unfolding tk scaled_units_def by (simp only: k)
qed

lemma parseUnits_amount:
  assumes "amount_re s"
  shows "parseUnits s d =
           (if 80 < d then Inl InvalidArgument
            else if \<not> list_all is_zero_char (drop d (frac_part s)) then Inl NumericFault
            else if 2 ^ 511 \<le> int (scaled_units (whole_part s) (frac_part s) d) then Inl NumericFault
            else Inr (int (scaled_units (whole_part s) (frac_part s) d)))"
proof -
  let ?w = "whole_part s" and ?f = "frac_part s"
  note sp = amount_re_split [OF assms]
  have fm: "fixed_match s = Some (False, ?w, ?f)"
    using fixed_match_digits [OF sp(1) sp(2) sp(3)] sp(4) by simp
  have nonneg: "- (2 ^ 511) \<le> int (scaled_units ?w ?f d)"
    by (rule order_trans [of _ 0]) simp_all
  have ne: "length ?w + length ?f \<noteq> 0" using sp(2) by simp
  have cv: "checkValue_ok (int (scaled_units ?w ?f d))
              = (\<not> 2 ^ 511 \<le> int (scaled_units ?w ?f d))"
    using nonneg by (auto simp: checkValue_ok_def)
  have pu: "parseUnits s d =
      (if \<not> getFormat_ok d then Inl InvalidArgument
       else if \<not> list_all is_zero_char (drop d (?f @ replicate (d - length ?f) (CHR ''0'')))
         then Inl NumericFault
       else if checkValue_ok (int (nat_of_digits (?w @ take d (?f @ replicate (d - length ?f) (CHR ''0'')))))
         then Inr (int (nat_of_digits (?w @ take d (?f @ replicate (d - length ?f) (CHR ''0'')))))
       else Inl NumericFault)"
    unfolding parseUnits_def fm
    using ne sp(2) by (simp only: Let_def option.case prod.case if_False if_True refl)
  show ?thesis
    by (simp only: pu drop_padded_zero scaled_units_padded cv getFormat_ok_def; simp add: not_le)
qed

lemma scaled_units_exact:
  assumes "list_all is_zero_char (drop d f)"
  shows "scaled_units w f d * 10 ^ length f
           = (nat_of_digits w * 10 ^ length f + nat_of_digits f) * 10 ^ d"
proof -
  have "nat_of_digits (take d f @ drop d f)
          = nat_of_digits (take d f) * 10 ^ length (drop d f) + nat_of_digits (drop d f)"
    by (rule nat_of_digits_append)
  then have nf: "nat_of_digits f = nat_of_digits (take d f) * 10 ^ (length f - d)"
    using nat_of_digits_all_zero [OF assms] by simp
  have ex: "(10::nat) ^ (d - length (take d f)) * 10 ^ length f = 10 ^ (length f - d) * 10 ^ d"
    by (simp add: power_add [symmetric] min_def)
  have "scaled_units w f d * 10 ^ length f
          = nat_of_digits w * 10 ^ d * 10 ^ length f
            + nat_of_digits (take d f) * (10 ^ (d - length (take d f)) * 10 ^ length f)"
    by (simp add: scaled_units_def algebra_simps del: length_take)
  also have "\<dots> = nat_of_digits w * 10 ^ d * 10 ^ length f
            + nat_of_digits (take d f) * (10 ^ (length f - d) * 10 ^ d)"
    by (simp only: ex)
  also have "\<dots> = (nat_of_digits w * 10 ^ length f + nat_of_digits f) * 10 ^ d"
    by (simp add: nf algebra_simps)
  finally show ?thesis .
qed

text \<open>
  C6.  An input that, once trimmed and freed of its commas, does not match the amount
  pattern fails with the invalid-amount error.  One that matches gives the number its
  digits denote scaled by \<open>10 ^ d\<close>, exactly, provided that \<open>d\<close> is at most 80, that no
  non-zero digit stands beyond the \<open>d\<close>-th decimal and that the number is below
  \<open>2 ^ 511\<close>; otherwise the call fails.  Nothing is ever rounded.
\<close>

theorem parseDecimalToUnits_exact:
  "parseDecimalToUnits human d =
     (if \<not> amount_re (cleaned human) then Inl (InvalidAmount human)
      else if 80 < d then Inl InvalidArgument
      else if \<not> list_all is_zero_char (drop d (frac_part (cleaned human))) then Inl NumericFault
      else if 2 ^ 511 \<le> int (scaled_units (whole_part (cleaned human)) (frac_part (cleaned human)) d)
        then Inl NumericFault
      else Inr (int (scaled_units (whole_part (cleaned human)) (frac_part (cleaned human)) d))) \<and>
   (list_all is_zero_char (drop d (frac_part (cleaned human))) \<longrightarrow>
      scaled_units (whole_part (cleaned human)) (frac_part (cleaned human)) d
          * 10 ^ length (frac_part (cleaned human))
        = (nat_of_digits (whole_part (cleaned human)) * 10 ^ length (frac_part (cleaned human))
           + nat_of_digits (frac_part (cleaned human))) * 10 ^ d)"
  using parseUnits_amount [of "cleaned human" d]
  by (auto simp: parseDecimalToUnits_def scaled_units_exact)

subsection \<open>Formatting and the round trip\<close>

lemma trim_whole_digits:
  assumes "xs \<noteq> []" "list_all is_digit xs"
  shows "\<exists>k ys. xs = replicate k (CHR ''0'') @ ys \<and> ys \<noteq> [] \<and>
               trim_whole (xs @ CHR ''.'' # rest) = ys @ CHR ''.'' # rest"
  using assms
proof (induction xs rule: list_nonempty_induct)
  case (single a)
  have "[a] = replicate 0 (CHR ''0'') @ [a] \<and> [a] \<noteq> [] \<and>
        trim_whole ([a] @ CHR ''.'' # rest) = [a] @ CHR ''.'' # rest" by simp
  then show ?case by blast
next
  case (cons a xs)
  then obtain b xs' where bx: "xs = b # xs'" by (cases xs) auto
  with cons.prems have "is_digit b" by simp
  then have bdot: "b \<noteq> CHR ''.''" using digit_not_special by blast
  from cons.IH cons.prems obtain k ys where
    ih: "xs = replicate k (CHR ''0'') @ ys" "ys \<noteq> []"
        "trim_whole (xs @ CHR ''.'' # rest) = ys @ CHR ''.'' # rest" by auto
  show ?case
  proof (cases "a = CHR ''0''")
    case True
    have "a # xs = replicate (Suc k) (CHR ''0'') @ ys" using True ih(1) by simp
    moreover have "trim_whole ((a # xs) @ CHR ''.'' # rest) = ys @ CHR ''.'' # rest"
      using True bdot ih(3) by (simp add: bx)
    ultimately show ?thesis using ih(2) by blast
  next
    case False
    have "a # xs = replicate 0 (CHR ''0'') @ (a # xs)" by simp
    moreover have "trim_whole ((a # xs) @ CHR ''.'' # rest) = (a # xs) @ CHR ''.'' # rest"
      using False by (simp add: bx)
    ultimately show ?thesis by blast
  qed
qed

lemma fixed_toString_shape:
  assumes d: "0 < d"
  shows "\<exists>W F j. fixed_toString (int n) d = W @ CHR ''.'' # F \<and>
           list_all is_digit W \<and> W \<noteq> [] \<and> list_all is_digit F \<and> F \<noteq> [] \<and>
           length F + j = d \<and> nat_of_digits (W @ F @ replicate j (CHR ''0'')) = n"
proof -
  define str1 where "str1 = replicate (Suc d - length (digits_of_nat n)) (CHR ''0'') @ digits_of_nat n"
  define W0 where "W0 = take (length str1 - d) str1"
  define F0 where "F0 = drop (length str1 - d) str1"
  have dig1: "list_all is_digit str1"
    using digits_of_nat_digits [of n] by (auto simp: str1_def list_all_iff zero_is_digit)
  have len1: "Suc d \<le> length str1" by (simp add: str1_def)
  have val1: "nat_of_digits str1 = n"
    unfolding str1_def by (simp only: nat_of_digits_leading_zeros nat_of_digits_of_nat)
  have split1: "W0 @ F0 = str1" unfolding W0_def F0_def by (rule append_take_drop_id)
  have lenW0: "length W0 = length str1 - d" unfolding W0_def by simp
  have W0: "W0 \<noteq> []" "list_all is_digit W0"
  proof -
    show "W0 \<noteq> []" using lenW0 len1 by auto
    show "list_all is_digit W0"
      using dig1 unfolding W0_def list_all_iff by (meson in_set_takeD)
  qed
  have F0: "length F0 = d" "list_all is_digit F0"
  proof -
    show "length F0 = d" unfolding F0_def using len1 by simp
    show "list_all is_digit F0"
      using dig1 unfolding F0_def list_all_iff by (meson in_set_dropD)
  qed
  have F0ne: "F0 \<noteq> []" using F0(1) d by auto
  from trim_whole_digits [OF W0, of F0] obtain k W where
    W: "W0 = replicate k (CHR ''0'') @ W" "W \<noteq> []"
       "trim_whole (W0 @ CHR ''.'' # F0) = W @ CHR ''.'' # F0" by blast
  have revF: "rev F0 \<noteq> []" "list_all is_digit (rev F0)"
    using F0ne F0(2) by (simp_all add: list_all_iff)
  from trim_whole_digits [OF revF, of "rev W"] obtain j G where
    G: "rev F0 = replicate j (CHR ''0'') @ G" "G \<noteq> []"
       "trim_whole (rev F0 @ CHR ''.'' # rev W) = G @ CHR ''.'' # rev W" by blast
  have Feq: "F0 = rev G @ replicate j (CHR ''0'')"
  proof -
    have "F0 = rev (rev F0)" by simp
    also have "\<dots> = rev (replicate j (CHR ''0'') @ G)" by (simp only: G(1))
    finally show ?thesis by simp
  qed
  have out: "fixed_toString (int n) d = W @ CHR ''.'' # rev G"
  proof -
    have "fixed_toString (int n) d = trim_fraction (trim_whole (W0 @ CHR ''.'' # F0))"
      using d by (simp add: fixed_toString_def Let_def W0_def F0_def str1_def)
    also have "\<dots> = rev (trim_whole (rev (W @ CHR ''.'' # F0)))"
      by (simp only: W(3) trim_fraction_def)
    also have "rev (W @ CHR ''.'' # F0) = rev F0 @ CHR ''.'' # rev W" by simp
    also have "rev (trim_whole (rev F0 @ CHR ''.'' # rev W)) = rev (G @ CHR ''.'' # rev W)"
      by (simp only: G(3))
    also have "\<dots> = W @ CHR ''.'' # rev G" by simp
    finally show ?thesis .
  qed
  have digW: "list_all is_digit W"
    using W0(2) unfolding W(1) by simp
  have digG: "list_all is_digit (rev G)"
    using F0(2) unfolding Feq by simp
  have lenF: "length (rev G) + j = d"
    using F0(1) unfolding Feq by simp
  have "nat_of_digits (W @ rev G @ replicate j (CHR ''0'')) = nat_of_digits (W @ F0)"
    by (simp only: Feq [symmetric])
  also have "\<dots> = nat_of_digits (replicate k (CHR ''0'') @ (W @ F0))"
    by (simp only: nat_of_digits_leading_zeros)
  also have "replicate k (CHR ''0'') @ (W @ F0) = W0 @ F0"
    unfolding W(1) by simp
  also have "nat_of_digits (W0 @ F0) = n"
    by (simp only: split1 val1)
  finally have val: "nat_of_digits (W @ rev G @ replicate j (CHR ''0'')) = n" .
  show ?thesis
    using out digW W(2) digG G(2) lenF val
    by (intro exI [of _ W] exI [of _ "rev G"] exI [of _ j]) simp
qed

lemma trim_id:
  assumes "s \<noteq> []" "\<not> is_space (hd s)" "\<not> is_space (last s)"
  shows "trim s = s"
proof -
  have a: "dropWhile is_space s = s"
    using assms(1,2) by (simp add: dropWhile_eq_self_iff)
  have b: "dropWhile is_space (rev s) = rev s"
    using assms(1,3) by (simp add: dropWhile_eq_self_iff hd_rev)
  show ?thesis by (simp add: trim_def a b)
qed

lemma cleaned_digits:
  assumes "list_all is_digit W" "W \<noteq> []" "list_all is_digit F"
  shows "cleaned (W @ (if F = [] then [] else CHR ''.'' # F)) = W @ (if F = [] then [] else CHR ''.'' # F)"
proof -
  let ?s = "W @ (if F = [] then [] else CHR ''.'' # F)"
  have ne: "?s \<noteq> []" using assms(2) by simp
  have hd: "is_digit (hd ?s)" using assms(1,2) by (cases W) auto
  have lst: "is_digit (last ?s)"
    using assms by (auto simp: list_all_iff)
  have "trim ?s = ?s"
    using ne hd lst digit_not_special by (intro trim_id) blast+
  moreover have "filter (\<lambda>c. c \<noteq> CHR '','') ?s = ?s"
    using assms digit_not_special by (auto simp: list_all_iff filter_id_conv)
  ultimately show ?thesis by (simp only: cleaned_def)
qed

lemma amount_re_digits:
  assumes "list_all is_digit W" "W \<noteq> []" "list_all is_digit F"
  shows "amount_re (W @ (if F = [] then [] else CHR ''.'' # F))"
        "whole_part (W @ (if F = [] then [] else CHR ''.'' # F)) = W"
        "frac_part (W @ (if F = [] then [] else CHR ''.'' # F)) = F"
proof -
  let ?rest = "if F = [] then [] else CHR ''.'' # F"
  have r: "?rest = [] \<or> (\<exists>g. ?rest = CHR ''.'' # g)" by simp
  note fw = fixed_match_whole [OF assms(1,2) r]
  show "whole_part (W @ ?rest) = W" unfolding whole_part_def by (rule fw(1))
  show "frac_part (W @ ?rest) = F" unfolding frac_part_def fw(2) by simp
  show "amount_re (W @ ?rest)"
    unfolding amount_re_def Let_def fw(1) fw(2) using assms by simp
qed

lemma parse_formatted:
  assumes W: "list_all is_digit W" "W \<noteq> []" and F: "list_all is_digit F"
      and len: "length F + j = d" and d: "d \<le> 80"
      and val: "nat_of_digits (W @ F @ replicate j (CHR ''0'')) = n" and n: "int n < 2 ^ 511"
  shows "parseDecimalToUnits (W @ (if F = [] then [] else CHR ''.'' # F)) d = Inr (int n)"
proof -
  let ?s = "W @ (if F = [] then [] else CHR ''.'' # F)"
  note cl = cleaned_digits [OF W F]
  note am = amount_re_digits [OF W F]
  have j: "j = d - length F" using len by simp
  have dr: "drop d F = []" using len by simp
  have "scaled_units W F d = nat_of_digits (W @ take d (F @ replicate (d - length F) (CHR ''0'')))"
    by (rule scaled_units_padded [symmetric])
  also have "take d (F @ replicate (d - length F) (CHR ''0'')) = F @ replicate j (CHR ''0'')"
    using len by (simp add: j)
  finally have sc: "scaled_units W F d = n" by (simp only: val)
  have "parseDecimalToUnits ?s d = parseUnits ?s d"
    unfolding parseDecimalToUnits_def cl using am(1) by simp
  also have "\<dots> = Inr (int n)"
    unfolding parseUnits_amount [OF am(1)] am(2) am(3) sc dr using d n by simp
  finally show ?thesis .
qed

lemma roundtrip:
  assumes "0 \<le> raw" "raw < 2 ^ 511" "d \<le> 80"
  shows "\<exists>s. formatUnitsHuman raw d = Inr s \<and> parseDecimalToUnits s d = Inr raw"
proof -
  define n where "n = nat raw"
  have raw: "raw = int n" using assms(1) by (simp add: n_def)
  have fmt: "formatUnitsHuman raw d = Inr (fixed_toString (int n) d)"
    using assms by (simp add: formatUnitsHuman_def formatUnits_def getFormat_ok_def checkValue_ok_def raw)
  have nlt: "int n < 2 ^ 511" using assms(2) raw by simp
  have "parseDecimalToUnits (fixed_toString (int n) d) d = Inr (int n)"
  proof (cases "d = 0")
    case True
    have s: "fixed_toString (int n) d = digits_of_nat n"
      using True by (simp add: fixed_toString_def)
    have "parseDecimalToUnits (digits_of_nat n @ (if ([]::string) = [] then [] else CHR ''.'' # [])) d
            = Inr (int n)"
      by (rule parse_formatted [where j = 0])
         (use True nlt in \<open>simp_all add: digits_of_nat_digits digits_of_nat_nonempty nat_of_digits_of_nat\<close>)
    then show ?thesis by (simp add: s)
  next
    case False
    then have "0 < d" by simp
    from fixed_toString_shape [OF this, of n] obtain W F j where
      sh: "fixed_toString (int n) d = W @ CHR ''.'' # F" "list_all is_digit W" "W \<noteq> []"
          "list_all is_digit F" "F \<noteq> []" "length F + j = d"
          "nat_of_digits (W @ F @ replicate j (CHR ''0'')) = n" by blast
    have "parseDecimalToUnits (W @ (if F = [] then [] else CHR ''.'' # F)) d = Inr (int n)"
      by (rule parse_formatted [OF sh(2) sh(3) sh(4) sh(6) assms(3) sh(7) nlt])
    then show ?thesis using sh(1) sh(5) by simp
  qed
  with fmt raw show ?thesis by simp
qed

subsection \<open>Concrete conversions\<close>

lemmas amount_eval =
  parseDecimalToUnits_def cleaned_def trim_def is_space_def is_digit_def amount_re_def
  whole_part_def frac_part_def scaled_units_def nat_of_digits_def digit_val_def is_zero_char_def

lemma parse_12_5: "parseDecimalToUnits ''12.5'' 6 = Inr 12500000"
proof -
  have c: "cleaned ''12.5'' = ''12.5''" by (simp add: cleaned_def trim_def is_space_def)
  have a: "amount_re ''12.5''" by (simp add: amount_re_def is_digit_def)
  show ?thesis
    unfolding parseDecimalToUnits_def c
    using a parseUnits_amount [OF a, of 6] by (simp add: amount_eval)
qed

lemma format_12_5: "formatUnitsHuman 12500000 6 = Inr ''12.5''"
proof -
  have dg: "digits_of_nat 12500000 = ''12500000''"
    by (simp add: digits_of_nat.simps digit_char_def char_of_def bit_Suc_0_iff)
  show ?thesis
    by (simp add: formatUnitsHuman_def formatUnits_def getFormat_ok_def checkValue_ok_def
        fixed_toString_def dg trim_fraction_def Let_def)
qed

lemma formatUnitsHuman_too_many_decimals:
  "80 < d \<Longrightarrow> formatUnitsHuman raw d = Inl InvalidArgument"
  by (simp add: formatUnitsHuman_def formatUnits_def getFormat_ok_def)

lemma formatUnitsHuman_too_large:
  "d \<le> 80 \<Longrightarrow> 2 ^ 511 \<le> raw \<Longrightarrow> formatUnitsHuman raw d = Inl NumericFault"
  by (simp add: formatUnitsHuman_def formatUnits_def getFormat_ok_def checkValue_ok_def)

text \<open>
  C7.  For a raw amount from 0 up to \<open>2 ^ 511\<close> and at most 80 decimals, formatting
  succeeds and parsing the string gives the amount back.  With more than 80 decimals
  formatting fails, whatever the amount, and so it does for an amount from \<open>2 ^ 511\<close>
  on.  And \<^verbatim>\<open>12.5\<close> at 6 decimals is 12500000 in both directions.
\<close>

theorem formatUnitsHuman_inverse:
  "(0 \<le> raw \<and> raw < 2 ^ 511 \<and> d \<le> 80 \<longrightarrow>
      (\<exists>s. formatUnitsHuman raw d = Inr s \<and> parseDecimalToUnits s d = Inr raw)) \<and>
   (80 < d \<longrightarrow> formatUnitsHuman raw d = Inl InvalidArgument) \<and>
   (d \<le> 80 \<and> 2 ^ 511 \<le> raw \<longrightarrow> formatUnitsHuman raw d = Inl NumericFault) \<and>
   parseDecimalToUnits ''12.5'' 6 = Inr 12500000 \<and>
   formatUnitsHuman 12500000 6 = Inr ''12.5''"
  using roundtrip [of raw d] formatUnitsHuman_too_many_decimals [of d raw]
    formatUnitsHuman_too_large [of d raw] parse_12_5 format_12_5
  by blast

theorem formatUnitsHuman_inverse_witness:
  "(0::int) \<le> 1000000 \<and> (1000000::int) < 2 ^ 511 \<and> (6::nat) \<le> 80 \<and>
   (\<exists>s. formatUnitsHuman 1000000 6 = Inr s \<and> parseDecimalToUnits s 6 = Inr 1000000) \<and>
   (80::nat) < 100 \<and> formatUnitsHuman 5 100 = Inl InvalidArgument \<and>
   (2::int) ^ 511 \<le> 2 ^ 512 \<and> formatUnitsHuman (2 ^ 512) 18 = Inl NumericFault"
  using formatUnitsHuman_inverse [of 1000000 6] formatUnitsHuman_inverse [of 5 100]
    formatUnitsHuman_inverse [of "2 ^ 512" 18]
  by simp

text \<open>
  At 81 decimals nothing can be formatted, and neither can \<open>2 ^ 511\<close> at 6 decimals, so
  nothing comes back.
\<close>

theorem formatUnitsHuman_81_decimals:
  "formatUnitsHuman 1 81 = Inl InvalidArgument \<and>
   formatUnitsHuman (2 ^ 511) 6 = Inl NumericFault"
  by (simp add: formatUnitsHuman_def formatUnits_def getFormat_ok_def checkValue_ok_def)

theorem parseDecimalToUnits_exact_witness:
  "list_all is_zero_char (drop 2 (frac_part (cleaned '' 1,234.50 ''))) \<and>
   parseDecimalToUnits '' 1,234.50 '' 2 = Inr 123450"
  using parseDecimalToUnits_exact [of "'' 1,234.50 ''" 2]
  by (simp add: amount_eval)

text \<open>
  A padded amount does not match the pattern once its commas are gone, yet it
  converts; and an amount with more decimals than the token has matches, yet fails.
\<close>

theorem parseDecimalToUnits_trim_and_excess:
  "\<not> amount_re (filter (\<lambda>c. c \<noteq> CHR '','') '' 1'') \<and>
   parseDecimalToUnits '' 1'' 0 = Inr 1 \<and>
   amount_re (filter (\<lambda>c. c \<noteq> CHR '','') ''1.23'') \<and>
   parseDecimalToUnits ''1.23'' 1 = Inl NumericFault"
proof -
  have c1: "cleaned '' 1'' = ''1''" by (simp add: cleaned_def trim_def is_space_def)
  have a1: "amount_re ''1''" by (simp add: amount_re_def is_digit_def)
  have p1: "parseDecimalToUnits '' 1'' 0 = Inr 1"
    unfolding parseDecimalToUnits_def c1
    using a1 parseUnits_amount [OF a1, of 0] by (simp add: amount_eval)
  have c2: "cleaned ''1.23'' = ''1.23''" by (simp add: cleaned_def trim_def is_space_def)
  have a2: "amount_re ''1.23''" by (simp add: amount_re_def is_digit_def)
  have p2: "parseDecimalToUnits ''1.23'' 1 = Inl NumericFault"
    unfolding parseDecimalToUnits_def c2
    using a2 parseUnits_amount [OF a2, of 1] by (simp add: amount_eval)
  have n1: "\<not> amount_re (filter (\<lambda>c. c \<noteq> CHR '','') '' 1'')"
    by (simp add: amount_re_def is_digit_def)
  show ?thesis using p1 p2 a2 n1 by simp
qed

end
